theory Spec2Isabelle
  imports Main "HOL-Library.AList" "HOL-Library.Char_ord" "HOL-Library.List_Lexorder"
begin

section \<open>Box Storage: a shallow embedding of app.py\<close>

text \<open>
  The program keeps every box as a markdown file \<^verbatim>\<open>boxes/<id>.md\<close> and every photo as a
  file \<^verbatim>\<open>photos/<id>/<name>\<close> below a data directory. The embedding follows the source
  function by function. What the source leaves to its libraries is written out here:
  \<^item> Python strings are lists of characters (code points below 256), with the string
    methods the source calls (\<open>strip\<close>, \<open>lstrip\<close>, \<open>split\<close>, \<open>rsplit\<close>, \<open>lower\<close>, \<open>in\<close>);
  \<^item> \<open>pathlib\<close> paths are lists of components; joining drops empty and \<open>.\<close> components and
    keeps \<open>..\<close>, which the file system resolves when the path is used;
  \<^item> the file system is a finite table from resolved absolute paths to nodes (a regular
    file with its stored text and modification time, or a directory); every call that
    can raise returns a sum, \<open>Inl\<close> carrying the exception;
  \<^item> a path with a NUL character is refused by Python before the operating system sees
    it (\<open>ValueError\<close>), and a component of more than 255 bytes is refused by the file
    system when it is looked up (\<open>OSError\<close>, \<open>ENAMETOOLONG\<close>); \<open>Path.exists\<close> and the
    directory test of \<open>glob\<close> answer no for a missing path and for a NUL, and pass the
    over-long name on as an exception;
  \<^item> text files are read as Python reads them: \<open>read_text\<close> opens the file with universal
    newlines, \<open>write_text\<close> on POSIX stores the characters as they are;
  \<^item> the QR encoder of the \<open>qrcode\<close> library is a parameter \<open>qr_png\<close> of the handlers that
    call it: the PNG image for a URL, or \<open>DataOverflowError\<close> when the URL fits no version
    of the code.
  Permissions, a full disk, the length of a whole path (not reached by a path of the
  store below \<^verbatim>\<open>/data\<close>), the limit on the size of a request, text encodings and symbolic
  links are outside the model.
\<close>

subsection \<open>Python strings\<close>

abbreviation LF :: char where "LF \<equiv> CHR 0x0A"
abbreviation CR :: char where "CR \<equiv> CHR 0x0D"

abbreviation NUL :: char where "NUL \<equiv> CHR 0x00"

definition is_ascii :: "char \<Rightarrow> bool" where
  "is_ascii c = ((of_char c :: nat) < 128)"

text \<open>\<open>str.isspace\<close> on the code points below 256.\<close>

definition isspace :: "char \<Rightarrow> bool" where
  "isspace c = (let n = (of_char c :: nat) in
     (9 \<le> n \<and> n \<le> 13) \<or> (28 \<le> n \<and> n \<le> 32) \<or> n = 133 \<or> n = 160)"

text \<open>\<open>s.strip()\<close>, \<open>s.lstrip(chars)\<close>, \<open>s.rstrip(chars)\<close>, \<open>s.strip(chars)\<close>.\<close>

definition strip :: "string \<Rightarrow> string" where
  "strip s = rev (dropWhile isspace (rev (dropWhile isspace s)))"

definition lstrip_chars :: "string \<Rightarrow> string \<Rightarrow> string" where
  "lstrip_chars cs s = dropWhile (\<lambda>c. c \<in> set cs) s"

definition rstrip_chars :: "string \<Rightarrow> string \<Rightarrow> string" where
  "rstrip_chars cs s = rev (dropWhile (\<lambda>c. c \<in> set cs) (rev s))"

definition strip_chars :: "string \<Rightarrow> string \<Rightarrow> string" where
  "strip_chars cs s = rstrip_chars cs (lstrip_chars cs s)"

text \<open>\<open>s.split(sep)\<close> with a one-character separator: never the empty list.\<close>

fun split_on :: "char \<Rightarrow> string \<Rightarrow> string list" where
  "split_on sep [] = [[]]"
| "split_on sep (c # cs) =
     (if c = sep then [] # split_on sep cs
      else (case split_on sep cs of [] \<Rightarrow> [[c]] | w # ws \<Rightarrow> (c # w) # ws))"

text \<open>\<open>s.split()\<close>: the maximal runs of non-whitespace characters.\<close>

fun split_ws :: "string \<Rightarrow> string list" where
  "split_ws [] = []"
| "split_ws (c # cs) =
     (if isspace c then split_ws cs
      else (case cs of
              [] \<Rightarrow> [[c]]
            | d # ds \<Rightarrow> if isspace d then [c] # split_ws cs
                       else (case split_ws cs of [] \<Rightarrow> [[c]] | w # ws \<Rightarrow> (c # w) # ws)))"

text \<open>\<open>sep.join(xs)\<close>.\<close>

fun join :: "string \<Rightarrow> string list \<Rightarrow> string" where
  "join sep [] = []"
| "join sep [x] = x"
| "join sep (x # y # ys) = x @ sep @ join sep (y # ys)"

text \<open>\<open>s.rsplit(sep, 1)\<close>: split once, at the last separator.\<close>

definition rsplit1 :: "char \<Rightarrow> string \<Rightarrow> string list" where
  "rsplit1 sep s =
     (if sep \<in> set s
      then [rev (tl (dropWhile (\<lambda>c. c \<noteq> sep) (rev s))), rev (takeWhile (\<lambda>c. c \<noteq> sep) (rev s))]
      else [s])"

text \<open>\<open>s.lower()\<close> on the code points below 256: A-Z and the Latin-1 capitals.\<close>

definition lower_char :: "char \<Rightarrow> char" where
  "lower_char c = (let n = (of_char c :: nat) in
     if (65 \<le> n \<and> n \<le> 90) \<or> (192 \<le> n \<and> n \<le> 222 \<and> n \<noteq> 215) then char_of (n + 32) else c)"

definition lower :: "string \<Rightarrow> string" where
  "lower s = map lower_char s"

text \<open>\<open>q in s\<close> for strings: \<open>q\<close> occurs in \<open>s\<close> as a contiguous substring.\<close>

fun contains :: "string \<Rightarrow> string \<Rightarrow> bool" where
  "contains q [] = (q = [])"
| "contains q (c # cs) = (take (length q) (c # cs) = q \<or> contains q cs)"

text \<open>
  Universal newlines, as \<open>open(..., newline=None)\<close> reads a text file: \<open>\r\n\<close> and a lone
  \<open>\r\<close> both arrive as \<open>\n\<close>.
\<close>

fun univ_nl :: "string \<Rightarrow> string" where
  "univ_nl [] = []"
| "univ_nl [c] = [if c = CR then LF else c]"
| "univ_nl (c # d # ds) =
     (if c = CR \<and> d = LF then LF # univ_nl ds
      else if c = CR then LF # univ_nl (d # ds)
      else c # univ_nl (d # ds))"

text \<open>Decimal numerals, \<open>{n:03d}\<close> and \<open>strftime\<close>.\<close>

definition digit_char :: "nat \<Rightarrow> char" where
  "digit_char d = char_of (48 + d)"

fun dec :: "nat \<Rightarrow> string" where
  "dec n = (if n < 10 then [digit_char n] else dec (n div 10) @ [digit_char (n mod 10)])"

declare dec.simps [simp del]

definition zfill :: "nat \<Rightarrow> string \<Rightarrow> string" where
  "zfill w s = replicate (w - length s) (CHR ''0'') @ s"

text \<open>Reading a decimal numeral back (\<open>int(s)\<close>); used to show that numbering is injective.\<close>

definition undec :: "string \<Rightarrow> nat" where
  "undec s = foldl (\<lambda>a c. 10 * a + (of_char c - 48)) 0 s"

record datetime =
  year :: nat
  month :: nat
  day :: nat
  hour :: nat
  minute :: nat
  second :: nat

text \<open>\<open>dt.strftime('%Y%m%d_%H%M%S')\<close>; the C library prints \<open>%Y\<close> without padding.\<close>

definition strftime :: "datetime \<Rightarrow> string" where
  "strftime dt =
     dec (year dt) @ zfill 2 (dec (month dt)) @ zfill 2 (dec (day dt)) @ ''_'' @
     zfill 2 (dec (hour dt)) @ zfill 2 (dec (minute dt)) @ zfill 2 (dec (second dt))"

text \<open>\<open>base64.b64encode\<close>, the result read as text.\<close>

definition b64_char :: "nat \<Rightarrow> char" where
  "b64_char n =
     ''ABCDEFGHIJKLMNOPQRSTUVWXYZabcdefghijklmnopqrstuvwxyz0123456789+/'' ! n"

fun b64encode :: "string \<Rightarrow> string" where
  "b64encode [] = []"
| "b64encode [a] =
     (let x = (of_char a :: nat) in
      [b64_char (x div 4), b64_char ((x mod 4) * 16), CHR ''='', CHR ''=''])"
| "b64encode [a, b] =
     (let x = (of_char a :: nat); y = (of_char b :: nat) in
      [b64_char (x div 4), b64_char ((x mod 4) * 16 + y div 16), b64_char ((y mod 16) * 4),
       CHR ''=''])"
| "b64encode (a # b # c # rest) =
     (let x = (of_char a :: nat); y = (of_char b :: nat); z = (of_char c :: nat) in
      [b64_char (x div 4), b64_char ((x mod 4) * 16 + y div 16),
       b64_char ((y mod 16) * 4 + z div 64), b64_char (z mod 64)] @ b64encode rest)"

subsection \<open>Paths\<close>

type_synonym path = "string list"

text \<open>
  \<open>Path / s\<close>: the string is cut at its slashes, empty and \<open>.\<close> components vanish, \<open>..\<close>
  stays; a string that starts with a slash replaces the path.
\<close>

definition parts :: "string \<Rightarrow> path" where
  "parts s = filter (\<lambda>c. c \<noteq> [] \<and> c \<noteq> ''.'') (split_on (CHR ''/'') s)"

definition joinpath :: "path \<Rightarrow> string \<Rightarrow> path" where
  "joinpath p s = (case s of [] \<Rightarrow> p | c # _ \<Rightarrow> if c = CHR ''/'' then parts s else p @ parts s)"

text \<open>\<open>Path.suffix\<close> and \<open>Path.stem\<close> of a final component.\<close>

definition name_suffix :: "string \<Rightarrow> string" where
  "name_suffix name =
     (let e = rev (takeWhile (\<lambda>c. c \<noteq> CHR ''.'') (rev name)) in
      if CHR ''.'' \<in> set name \<and> e \<noteq> [] \<and> length e + 1 < length name
      then CHR ''.'' # e else [])"

definition name_stem :: "string \<Rightarrow> string" where
  "name_stem name = take (length name - length (name_suffix name)) name"

text \<open>The data directory; \<^verbatim>\<open>/data\<close> is the production value the source names.\<close>

definition DATA_DIR :: path where
  "DATA_DIR = [''data'']"

definition BOXES_DIR :: path where
  "BOXES_DIR = joinpath DATA_DIR ''boxes''"

definition PHOTOS_DIR :: path where
  "PHOTOS_DIR = joinpath DATA_DIR ''photos''"

definition ALLOWED_EXTENSIONS :: "string list" where
  "ALLOWED_EXTENSIONS = [''png'', ''jpg'', ''jpeg'', ''gif'', ''webp'']"

subsection \<open>The file system\<close>

datatype node = File string nat | Dir

type_synonym fs = "(path \<times> node) list"

text \<open>
  The exceptions; \<open>NameTooLong\<close> and \<open>DirectoryNotEmpty\<close> are the \<open>OSError\<close> with
  \<open>ENAMETOOLONG\<close> and \<open>ENOTEMPTY\<close>.
\<close>

datatype error =
  FileNotFoundError | NotADirectoryError | IsADirectoryError | FileExistsError
| DirectoryNotEmpty | NameTooLong | ValueError | DataOverflowError

text \<open>The length of a name in bytes (UTF-8), and the test for a NUL in a path.\<close>

definition name_bytes :: "string \<Rightarrow> nat" where
  "name_bytes x = length x + length (filter (\<lambda>c. \<not> is_ascii c) x)"

definition has_nul :: "path \<Rightarrow> bool" where
  "has_nul p = list_ex (\<lambda>c. NUL \<in> set c) p"

definition node_at :: "fs \<Rightarrow> path \<Rightarrow> node option" where
  "node_at s q = (if q = [] then Some Dir else map_of s q)"

text \<open>
  Resolving a path from the root: every component is looked up in a directory that
  exists, a name of more than 255 bytes is refused there, and \<open>..\<close> steps to the parent.
\<close>

fun walk :: "fs \<Rightarrow> path \<Rightarrow> path \<Rightarrow> error + path" where
  "walk s cur [] = Inr cur"
| "walk s cur (c # cs) =
     (case node_at s cur of
        None \<Rightarrow> Inl FileNotFoundError
      | Some (File _ _) \<Rightarrow> Inl NotADirectoryError
      | Some Dir \<Rightarrow>
          if 255 < name_bytes c then Inl NameTooLong
          else walk s (if c = ''..'' then butlast cur else cur @ [c]) cs)"

definition locate :: "fs \<Rightarrow> path \<Rightarrow> error + path" where
  "locate s p = (if has_nul p then Inl ValueError else walk s [] p)"

text \<open>
  The errors that \<open>Path.exists\<close> and \<open>Path.is_dir\<close> take for the answer no; they raise
  the others.
\<close>

definition ignored_error :: "error \<Rightarrow> bool" where
  "ignored_error e = (e = FileNotFoundError \<or> e = NotADirectoryError \<or> e = ValueError)"

definition exists :: "fs \<Rightarrow> path \<Rightarrow> error + bool" where
  "exists s p =
     (case locate s p of
        Inl e \<Rightarrow> if ignored_error e then Inr False else Inl e
      | Inr q \<Rightarrow> Inr (node_at s q \<noteq> None))"

definition children :: "fs \<Rightarrow> path \<Rightarrow> string list" where
  "children s q = map (\<lambda>(k, n). last k) (filter (\<lambda>(k, n). k \<noteq> [] \<and> butlast k = q) s)"

text \<open>\<open>p.glob('*')\<close>: the entries of the directory, in the directory's order.\<close>

definition glob_star :: "fs \<Rightarrow> path \<Rightarrow> error + path list" where
  "glob_star s p =
     (case locate s p of
        Inl e \<Rightarrow> if ignored_error e then Inr [] else Inl e
      | Inr q \<Rightarrow> Inr (if node_at s q = Some Dir then map (\<lambda>n. p @ [n]) (children s q) else []))"

text \<open>\<open>p.glob('*.md')\<close>.\<close>

definition matches_md :: "string \<Rightarrow> bool" where
  "matches_md name = (3 \<le> length name \<and> drop (length name - 3) name = ''.md'')"

definition glob_md :: "fs \<Rightarrow> path \<Rightarrow> error + path list" where
  "glob_md s p =
     (case glob_star s p of
        Inl e \<Rightarrow> Inl e
      | Inr fs \<Rightarrow> Inr (filter (\<lambda>f. matches_md (last f)) fs))"

definition read_bytes :: "fs \<Rightarrow> path \<Rightarrow> error + string" where
  "read_bytes s p =
     (case locate s p of
        Inl e \<Rightarrow> Inl e
      | Inr q \<Rightarrow> (case node_at s q of
                    None \<Rightarrow> Inl FileNotFoundError
                  | Some Dir \<Rightarrow> Inl IsADirectoryError
                  | Some (File c _) \<Rightarrow> Inr c))"

definition read_text :: "fs \<Rightarrow> path \<Rightarrow> error + string" where
  "read_text s p = (case read_bytes s p of Inl e \<Rightarrow> Inl e | Inr c \<Rightarrow> Inr (univ_nl c))"

definition stat_mtime :: "fs \<Rightarrow> path \<Rightarrow> error + nat" where
  "stat_mtime s p =
     (case locate s p of
        Inl e \<Rightarrow> Inl e
      | Inr q \<Rightarrow> (case node_at s q of
                    None \<Rightarrow> Inl FileNotFoundError
                  | Some Dir \<Rightarrow> Inr 0
                  | Some (File _ t) \<Rightarrow> Inr t))"

text \<open>Writing a file at time \<open>t\<close> (\<open>write_text\<close>, \<open>file.save\<close>): creates or replaces it.\<close>

definition write_file :: "fs \<Rightarrow> nat \<Rightarrow> path \<Rightarrow> string \<Rightarrow> error + fs" where
  "write_file s t p c =
     (case locate s p of
        Inl e \<Rightarrow> Inl e
      | Inr q \<Rightarrow> (case node_at s q of
                    Some Dir \<Rightarrow> Inl IsADirectoryError
                  | _ \<Rightarrow> Inr (AList.update q (File c t) s)))"

definition unlink :: "fs \<Rightarrow> path \<Rightarrow> error + fs" where
  "unlink s p =
     (case locate s p of
        Inl e \<Rightarrow> Inl e
      | Inr q \<Rightarrow> (case node_at s q of
                    None \<Rightarrow> Inl FileNotFoundError
                  | Some Dir \<Rightarrow> Inl IsADirectoryError
                  | Some (File _ _) \<Rightarrow> Inr (AList.delete q s)))"

definition rmdir :: "fs \<Rightarrow> path \<Rightarrow> error + fs" where
  "rmdir s p =
     (case locate s p of
        Inl e \<Rightarrow> Inl e
      | Inr q \<Rightarrow> (case node_at s q of
                    None \<Rightarrow> Inl FileNotFoundError
                  | Some (File _ _) \<Rightarrow> Inl NotADirectoryError
                  | Some Dir \<Rightarrow> if children s q \<noteq> [] \<or> q = [] then Inl DirectoryNotEmpty
                                else Inr (AList.delete q s)))"

text \<open>\<open>p.mkdir(exist_ok=True)\<close>.\<close>

definition mkdir_exist_ok :: "fs \<Rightarrow> path \<Rightarrow> error + fs" where
  "mkdir_exist_ok s p =
     (case locate s p of
        Inl e \<Rightarrow> Inl e
      | Inr q \<Rightarrow> (case node_at s q of
                    None \<Rightarrow> Inr (AList.update q Dir s)
                  | Some (File _ _) \<Rightarrow> Inl FileExistsError
                  | Some Dir \<Rightarrow> Inr s))"

subsection \<open>The box store\<close>

text \<open>\<open>allowed_file\<close>: the second conjunct is only evaluated when the name has a dot.\<close>

definition allowed_file :: "string \<Rightarrow> bool" where
  "allowed_file filename =
     (CHR ''.'' \<in> set filename \<and>
      lower (rsplit1 (CHR ''.'') filename ! 1) \<in> set ALLOWED_EXTENSIONS)"

definition box_photos_dir :: "string \<Rightarrow> path" where
  "box_photos_dir box_id = joinpath PHOTOS_DIR box_id"

definition is_photo_name :: "string \<Rightarrow> bool" where
  "is_photo_name name = (lstrip_chars ''.'' (lower (name_suffix name)) \<in> set ALLOWED_EXTENSIONS)"

definition get_box_photos :: "fs \<Rightarrow> string \<Rightarrow> error + string list" where
  "get_box_photos s box_id =
     (case exists s (box_photos_dir box_id) of
        Inl e \<Rightarrow> Inl e
      | Inr there \<Rightarrow>
          if \<not> there then Inr []
          else (case glob_star s (box_photos_dir box_id) of
                  Inl e \<Rightarrow> Inl e
                | Inr fs \<Rightarrow> Inr (filter is_photo_name (map last (sort fs)))))"

definition box_file :: "string \<Rightarrow> path" where
  "box_file box_id = joinpath BOXES_DIR (box_id @ ''.md'')"

definition get_box_content :: "fs \<Rightarrow> string \<Rightarrow> error + string option" where
  "get_box_content s box_id =
     (case exists s (box_file box_id) of
        Inl e \<Rightarrow> Inl e
      | Inr there \<Rightarrow>
          if there
          then (case read_text s (box_file box_id) of Inl e \<Rightarrow> Inl e | Inr c \<Rightarrow> Inr (Some c))
          else Inr None)"

definition save_box_content :: "fs \<Rightarrow> nat \<Rightarrow> string \<Rightarrow> string \<Rightarrow> error + fs" where
  "save_box_content s t box_id content = write_file s t (box_file box_id) content"

text \<open>The title both \<open>get_all_boxes\<close> and \<open>search\<close> compute from a file's text.\<close>

definition title_of :: "string \<Rightarrow> string \<Rightarrow> string" where
  "title_of box_id content =
     (case split_on LF (strip content) of
        [] \<Rightarrow> box_id
      | l # _ \<Rightarrow> strip (lstrip_chars ''# '' l))"

record box_info =
  bi_id :: string
  bi_title :: string
  bi_modified :: nat

definition box_entry :: "fs \<Rightarrow> path \<Rightarrow> error + box_info" where
  "box_entry s f =
     (case read_text s f of
        Inl e \<Rightarrow> Inl e
      | Inr content \<Rightarrow>
          (case stat_mtime s f of
             Inl e \<Rightarrow> Inl e
           | Inr m \<Rightarrow> Inr \<lparr>bi_id = name_stem (last f),
                          bi_title = title_of (name_stem (last f)) content,
                          bi_modified = m\<rparr>))"

fun boxes_loop :: "fs \<Rightarrow> path list \<Rightarrow> box_info list \<Rightarrow> error + box_info list" where
  "boxes_loop s [] boxes = Inr boxes"
| "boxes_loop s (f # fs) boxes =
     (case box_entry s f of Inl e \<Rightarrow> Inl e | Inr b \<Rightarrow> boxes_loop s fs (boxes @ [b]))"

text \<open>\<open>sorted(boxes, key=modified, reverse=True)\<close>: descending and stable.\<close>

definition sorted_desc :: "box_info list \<Rightarrow> box_info list" where
  "sorted_desc boxes = rev (sort_key bi_modified (rev boxes))"

definition get_all_boxes :: "fs \<Rightarrow> error + box_info list" where
  "get_all_boxes s =
     (case glob_md s BOXES_DIR of
        Inl e \<Rightarrow> Inl e
      | Inr fs \<Rightarrow>
          (case boxes_loop s fs [] of
             Inl e \<Rightarrow> Inl e
           | Inr boxes \<Rightarrow> Inr (sorted_desc boxes)))"

text \<open>\<open>f"box-{counter:03d}"\<close>.\<close>

definition box_name :: "nat \<Rightarrow> string" where
  "box_name counter = ''box-'' @ zfill 3 (dec counter)"

definition existing_ids :: "fs \<Rightarrow> error + string list" where
  "existing_ids s =
     (case glob_md s BOXES_DIR of
        Inl e \<Rightarrow> Inl e
      | Inr fs \<Rightarrow> Inr (map (\<lambda>f. name_stem (last f)) fs))"

text \<open>The template a new box starts with.\<close>

definition template :: "string \<Rightarrow> string" where
  "template box_id =
     ''# '' @ box_id @ [LF, LF] @ ''## Contents'' @ [LF, LF] @ ''- '' @ [LF, LF] @
     ''## Location'' @ [LF, LF, LF] @ ''## Notes'' @ [LF, LF]"

text \<open>
  \<open>secure_filename\<close> of werkzeug on POSIX. The first step, NFKD normalisation followed
  by dropping what is not ASCII, keeps every ASCII character and replaces every other
  one by the ASCII part of its decomposition; the decomposition table is the parameter
  \<open>nfkd\<close>.
\<close>

definition ascii_fold :: "(char \<Rightarrow> string) \<Rightarrow> string \<Rightarrow> string" where
  "ascii_fold nfkd s = concat (map (\<lambda>c. if is_ascii c then [c] else filter is_ascii (nfkd c)) s)"

definition safe_char :: "char \<Rightarrow> bool" where
  "safe_char c = (let n = (of_char c :: nat) in
     (65 \<le> n \<and> n \<le> 90) \<or> (97 \<le> n \<and> n \<le> 122) \<or> (48 \<le> n \<and> n \<le> 57) \<or>
     c = CHR ''_'' \<or> c = CHR ''.'' \<or> c = CHR ''-'')"

definition secure_filename :: "(char \<Rightarrow> string) \<Rightarrow> string \<Rightarrow> string" where
  "secure_filename nfkd filename =
     strip_chars ''._''
       (filter safe_char
         (join ''_'' (split_ws
           (map (\<lambda>c. if c = CHR ''/'' then CHR '' '' else c) (ascii_fold nfkd filename)))))"

text \<open>
  \<open>generate_box_id\<close>: the counter runs upwards from 1 until its name is free. The loop is
  the function \<open>generate_box_id_from\<close>; that it ends is proved below.
\<close>

function generate_box_id_from :: "string list \<Rightarrow> nat \<Rightarrow> string" where
  "generate_box_id_from existing counter =
     (if box_name counter \<in> set existing then generate_box_id_from existing (counter + 1)
      else box_name counter)"
  by pat_completeness auto

definition generate_box_id :: "fs \<Rightarrow> error + string" where
  "generate_box_id s =
     (case existing_ids s of
        Inl e \<Rightarrow> Inl e
      | Inr existing \<Rightarrow> Inr (generate_box_id_from existing 1))"

text \<open>
  \<open>generate_qr_code\<close>: the image of the encoder, base64 encoded; the encoder's exception
  passes through.
\<close>

definition generate_qr_code :: "(string \<Rightarrow> error + string) \<Rightarrow> string \<Rightarrow> error + string" where
  "generate_qr_code qr_png url =
     (case qr_png url of Inl e \<Rightarrow> Inl e | Inr png \<Rightarrow> Inr (b64encode png))"

subsection \<open>The request handlers\<close>

record search_result =
  sr_id :: string
  sr_title :: string
  sr_preview :: "string list"

record upload =
  up_filename :: string
  up_data :: string

text \<open>
  What a handler answers. A rendered page carries the values handed to the template:
  \<open>Render_box box_id content qr_base64 qr_url photos\<close>, \<open>Render_edit box_id content\<close>,
  \<open>Render_search query results\<close>; \<open>Send_qr png download_name\<close> is the image as a download.
\<close>

datatype response =
  Render_index "box_info list"
| Render_box string string string string "string list"
| Render_edit string string
| Render_search string "search_result list"
| Redirect_index
| Redirect_view_box string
| Redirect_edit_box string
| Send_file string
| Send_qr string string
| Not_found

text \<open>
  A handler ends with a response or with an exception; either way the file system is
  left in some state.
\<close>

datatype result = Done fs response | Raised fs error

definition index :: "fs \<Rightarrow> result" where
  "index s = (case get_all_boxes s of Inl e \<Rightarrow> Raised s e | Inr boxes \<Rightarrow> Done s (Render_index boxes))"

definition qr_url_of :: "string \<Rightarrow> string \<Rightarrow> string" where
  "qr_url_of host_url box_id = rstrip_chars ''/'' host_url @ ''/box/'' @ box_id"

text \<open>
  The second half of \<open>view_box\<close>, once the content is at hand: the QR code, then the
  photos, then the page.
\<close>

definition box_page ::
  "(string \<Rightarrow> error + string) \<Rightarrow> fs \<Rightarrow> string \<Rightarrow> string \<Rightarrow> string \<Rightarrow> result" where
  "box_page qr_png s host_url box_id content =
     (case generate_qr_code qr_png (qr_url_of host_url box_id) of
        Inl e \<Rightarrow> Raised s e
      | Inr qr_base64 \<Rightarrow>
          (case get_box_photos s box_id of
             Inl e \<Rightarrow> Raised s e
           | Inr photos \<Rightarrow>
               Done s (Render_box box_id content qr_base64 (qr_url_of host_url box_id) photos)))"

definition view_box ::
  "(string \<Rightarrow> error + string) \<Rightarrow> fs \<Rightarrow> nat \<Rightarrow> string \<Rightarrow> string \<Rightarrow> result" where
  "view_box qr_png s t host_url box_id =
     (case get_box_content s box_id of
        Inl e \<Rightarrow> Raised s e
      | Inr (Some content) \<Rightarrow> box_page qr_png s host_url box_id content
      | Inr None \<Rightarrow>
          (case save_box_content s t box_id (template box_id) of
             Inl e \<Rightarrow> Raised s e
           | Inr s' \<Rightarrow> box_page qr_png s' host_url box_id (template box_id)))"

definition edit_box_post :: "fs \<Rightarrow> nat \<Rightarrow> string \<Rightarrow> string \<Rightarrow> result" where
  "edit_box_post s t box_id content =
     (case save_box_content s t box_id content of
        Inl e \<Rightarrow> Raised s e
      | Inr s' \<Rightarrow> Done s' (Redirect_view_box box_id))"

definition edit_box_get :: "fs \<Rightarrow> string \<Rightarrow> result" where
  "edit_box_get s box_id =
     (case get_box_content s box_id of
        Inl e \<Rightarrow> Raised s e
      | Inr None \<Rightarrow> Done s (Render_edit box_id (template box_id))
      | Inr (Some content) \<Rightarrow> Done s (Render_edit box_id content))"

definition download_qr ::
  "(string \<Rightarrow> error + string) \<Rightarrow> fs \<Rightarrow> string \<Rightarrow> string \<Rightarrow> result" where
  "download_qr qr_png s host_url box_id =
     (case qr_png (qr_url_of host_url box_id) of
        Inl e \<Rightarrow> Raised s e
      | Inr png \<Rightarrow> Done s (Send_qr png (box_id @ ''-qr.png'')))"

definition new_box :: "fs \<Rightarrow> result" where
  "new_box s =
     (case generate_box_id s of
        Inl e \<Rightarrow> Raised s e
      | Inr box_id \<Rightarrow> Done s (Redirect_edit_box box_id))"

definition search_entry :: "fs \<Rightarrow> string \<Rightarrow> path \<Rightarrow> error + search_result list" where
  "search_entry s query f =
     (case read_text s f of
        Inl e \<Rightarrow> Inl e
      | Inr content \<Rightarrow>
          if contains query (lower content)
          then Inr [\<lparr>sr_id = name_stem (last f),
                     sr_title = title_of (name_stem (last f)) content,
                     sr_preview = take 3 (map strip (filter (\<lambda>l. contains query (lower l))
                                                       (split_on LF (strip content))))\<rparr>]
          else Inr [])"

fun search_loop :: "fs \<Rightarrow> string \<Rightarrow> path list \<Rightarrow> search_result list \<Rightarrow> error + search_result list" where
  "search_loop s query [] results = Inr results"
| "search_loop s query (f # fs) results =
     (case search_entry s query f of
        Inl e \<Rightarrow> Inl e
      | Inr r \<Rightarrow> search_loop s query fs (results @ r))"

definition search_results :: "fs \<Rightarrow> string \<Rightarrow> error + search_result list" where
  "search_results s query =
     (if query \<noteq> []
      then (case glob_md s BOXES_DIR of
              Inl e \<Rightarrow> Inl e
            | Inr fs \<Rightarrow> search_loop s query fs [])
      else Inr [])"

definition search :: "fs \<Rightarrow> string \<Rightarrow> result" where
  "search s q =
     (case search_results s (lower q) of
        Inl e \<Rightarrow> Raised s e
      | Inr results \<Rightarrow> Done s (Render_search (lower q) results))"

text \<open>\<open>f"{timestamp}.{ext}"\<close> of \<open>upload_photo\<close>.\<close>

definition stored_name :: "datetime \<Rightarrow> string \<Rightarrow> string" where
  "stored_name now filename =
     strftime now @ ''.'' @ lower (rsplit1 (CHR ''.'') filename ! 1)"

definition upload_photo :: "fs \<Rightarrow> datetime \<Rightarrow> nat \<Rightarrow> string \<Rightarrow> upload option \<Rightarrow> result" where
  "upload_photo s now t box_id photo =
     (case photo of
        None \<Rightarrow> Done s (Redirect_view_box box_id)
      | Some file \<Rightarrow>
          if up_filename file = [] then Done s (Redirect_view_box box_id)
          else if allowed_file (up_filename file) then
            (case mkdir_exist_ok s (box_photos_dir box_id) of
               Inl e \<Rightarrow> Raised s e
             | Inr s1 \<Rightarrow>
                 (case write_file s1 t
                         (joinpath (box_photos_dir box_id) (stored_name now (up_filename file)))
                         (up_data file) of
                    Inl e \<Rightarrow> Raised s1 e
                  | Inr s2 \<Rightarrow> Done s2 (Redirect_view_box box_id)))
          else Done s (Redirect_view_box box_id))"

definition photo_path :: "(char \<Rightarrow> string) \<Rightarrow> string \<Rightarrow> string \<Rightarrow> path" where
  "photo_path nfkd box_id filename =
     joinpath (joinpath PHOTOS_DIR box_id) (secure_filename nfkd filename)"

definition get_photo :: "fs \<Rightarrow> (char \<Rightarrow> string) \<Rightarrow> string \<Rightarrow> string \<Rightarrow> result" where
  "get_photo s nfkd box_id filename =
     (case exists s (photo_path nfkd box_id filename) of
        Inl e \<Rightarrow> Raised s e
      | Inr there \<Rightarrow>
          if there
          then (case read_bytes s (photo_path nfkd box_id filename) of
                  Inl e \<Rightarrow> Raised s e
                | Inr c \<Rightarrow> Done s (Send_file c))
          else Done s Not_found)"

definition delete_photo :: "fs \<Rightarrow> (char \<Rightarrow> string) \<Rightarrow> string \<Rightarrow> string \<Rightarrow> result" where
  "delete_photo s nfkd box_id filename =
     (case exists s (photo_path nfkd box_id filename) of
        Inl e \<Rightarrow> Raised s e
      | Inr there \<Rightarrow>
          if there
          then (case unlink s (photo_path nfkd box_id filename) of
                  Inl e \<Rightarrow> Raised s e
                | Inr s' \<Rightarrow> Done s' (Redirect_view_box box_id))
          else Done s (Redirect_view_box box_id))"

text \<open>The loop of \<open>delete_box\<close> over the entries that \<open>glob('*')\<close> listed.\<close>

fun unlink_each :: "fs \<Rightarrow> path list \<Rightarrow> fs \<times> error option" where
  "unlink_each s [] = (s, None)"
| "unlink_each s (p # ps) =
     (case unlink s p of Inl e \<Rightarrow> (s, Some e) | Inr s' \<Rightarrow> unlink_each s' ps)"

definition delete_photos_dir :: "fs \<Rightarrow> string \<Rightarrow> result" where
  "delete_photos_dir s box_id =
     (case exists s (box_photos_dir box_id) of
        Inl e \<Rightarrow> Raised s e
      | Inr there \<Rightarrow>
          if there
          then (case glob_star s (box_photos_dir box_id) of
                  Inl e \<Rightarrow> Raised s e
                | Inr photos \<Rightarrow>
                    (case unlink_each s photos of
                       (s1, Some e) \<Rightarrow> Raised s1 e
                     | (s1, None) \<Rightarrow>
                         (case rmdir s1 (box_photos_dir box_id) of
                            Inl e \<Rightarrow> Raised s1 e
                          | Inr s2 \<Rightarrow> Done s2 Redirect_index)))
          else Done s Redirect_index)"

definition delete_box :: "fs \<Rightarrow> string \<Rightarrow> result" where
  "delete_box s box_id =
     (case exists s (box_file box_id) of
        Inl e \<Rightarrow> Raised s e
      | Inr there \<Rightarrow>
          if there
          then (case unlink s (box_file box_id) of
                  Inl e \<Rightarrow> Raised s e
                | Inr s' \<Rightarrow> delete_photos_dir s' box_id)
          else delete_photos_dir s box_id)"

text \<open>
  The routes take \<open>box_id\<close> and \<open>filename\<close> through the default string converter of the
  URL map, which accepts any non-empty text without a slash.
\<close>

definition route_segment :: "string \<Rightarrow> bool" where
  "route_segment x = (x \<noteq> [] \<and> CHR ''/'' \<notin> set x)"

definition final_state :: "result \<Rightarrow> fs" where
  "final_state r = (case r of Done s _ \<Rightarrow> s | Raised s _ \<Rightarrow> s)"

text \<open>
  The directories the program creates when it starts are there.
\<close>

definition store_ready :: "fs \<Rightarrow> bool" where
  "store_ready s = (node_at s DATA_DIR = Some Dir \<and> node_at s BOXES_DIR = Some Dir \<and>
                    node_at s PHOTOS_DIR = Some Dir)"



text \<open>A path component that names an entry of the directory it is joined to.\<close>

definition plain_segment :: "string \<Rightarrow> bool" where
  "plain_segment x = (x \<noteq> [] \<and> CHR ''/'' \<notin> set x \<and> x \<noteq> ''.'' \<and> x \<noteq> ''..'')"

text \<open>A name the file system stores: no NUL and at most 255 bytes.\<close>

definition valid_name :: "string \<Rightarrow> bool" where
  "valid_name x = (NUL \<notin> set x \<and> name_bytes x \<le> 255)"

definition file_name :: "string \<Rightarrow> bool" where
  "file_name x = (plain_segment x \<and> valid_name x)"

text \<open>A time as the clock gives it, with a four-digit year.\<close>

definition calendar_time :: "datetime \<Rightarrow> bool" where
  "calendar_time dt =
     (1000 \<le> year dt \<and> year dt \<le> 9999 \<and> 1 \<le> month dt \<and> month dt \<le> 12 \<and>
      1 \<le> day dt \<and> day dt \<le> 31 \<and> hour dt < 24 \<and> minute dt < 60 \<and> second dt < 60)"

text \<open>\<open>under d q\<close>: the resolved path \<open>q\<close> is \<open>d\<close> or lies below it.\<close>

definition under :: "path \<Rightarrow> path \<Rightarrow> bool" where
  "under d q = (take (length d) q = d)"

text \<open>
  A table as a file system keeps it: every path is entered once, and every component
  is a name the file system stores.
\<close>

definition table_ok :: "fs \<Rightarrow> bool" where
  "table_ok s = (distinct (map fst s) \<and> list_all (\<lambda>(k, n). list_all file_name k) s)"

subsection \<open>Example stores\<close>

text \<open>A store with two boxes, \<open>box-001\<close> and \<open>box-003\<close>, and no photos.\<close>

definition example_store :: fs where
  "example_store =
     [([''data''], Dir), ([''data'', ''boxes''], Dir), ([''data'', ''photos''], Dir),
      ([''data'', ''boxes'', ''box-001.md''], File ''# Tools'' 5),
      ([''data'', ''boxes'', ''box-003.md''], File ''# Books'' 7)]"

text \<open>A store whose only box has an empty record.\<close>

definition empty_box_store :: fs where
  "empty_box_store =
     [([''data''], Dir), ([''data'', ''boxes''], Dir), ([''data'', ''photos''], Dir),
      ([''data'', ''boxes'', ''box-001.md''], File [] 5)]"

text \<open>An upload whose extension is written in capitals.\<close>

definition photo_upload :: upload where
  "photo_upload = \<lparr>up_filename = ''photo.JPG'', up_data = ''JFIF''\<rparr>"

text \<open>
  A store with a file next to the two directories, a box with one photo, and (in the
  second store) a box whose id is a single dot.
\<close>

definition traversal_store :: fs where
  "traversal_store =
     [([''data''], Dir), ([''data'', ''boxes''], Dir), ([''data'', ''photos''], Dir),
      ([''data'', ''secret.txt''], File ''token'' 3),
      ([''data'', ''boxes'', ''box-001.md''], File ''# Tools'' 5),
      ([''data'', ''photos'', ''box-001''], Dir),
      ([''data'', ''photos'', ''box-001'', ''20240101_100000.jpg''], File ''JFIF'' 6)]"

definition dot_box_store :: fs where
  "dot_box_store =
     [([''data''], Dir), ([''data'', ''boxes''], Dir), ([''data'', ''photos''], Dir),
      ([''data'', ''boxes'', ''..md''], File ''# Dot'' 4),
      ([''data'', ''boxes'', ''box-001.md''], File ''# Tools'' 5),
      ([''data'', ''photos'', ''box-001''], Dir),
      ([''data'', ''photos'', ''box-001'', ''20240101_100000.jpg''], File ''JFIF'' 6)]"

text \<open>A decomposition table for names that are ASCII already.\<close>

definition no_nfkd :: "char \<Rightarrow> string" where
  "no_nfkd c = []"

text \<open>
  A stand-in for the QR encoder, with a capacity of 40 characters, so that both of its
  outcomes can be seen at short URLs.
\<close>

definition example_qr :: "string \<Rightarrow> error + string" where
  "example_qr url = (if 40 < length url then Inl DataOverflowError else Inr (''PNG'' @ url))"

definition upload_time :: datetime where
  "upload_time = \<lparr>year = 2024, month = 3, day = 7, hour = 14, minute = 5, second = 9\<rparr>"

definition example_time :: datetime where
  "example_time = \<lparr>year = 2024, month = 1, day = 1, hour = 10, minute = 0, second = 0\<rparr>"

section \<open>Properties\<close>

subsection \<open>Numbering of boxes\<close>

lemma undec_snoc: "undec (s @ [c]) = 10 * undec s + (of_char c - 48)"
  by (simp add: undec_def)

lemma of_char_digit: "d < 10 \<Longrightarrow> (of_char (digit_char d) :: nat) = 48 + d"
  by (simp add: digit_char_def)

lemma undec_dec: "undec (dec n) = n"
proof (induction n rule: dec.induct)
  case (1 n)
  show ?case
  proof (cases "n < 10")
    case True
    then show ?thesis by (simp add: dec.simps [of n] undec_def of_char_digit)
  next
    case False
    with 1 show ?thesis
      by (simp add: dec.simps [of n] undec_snoc of_char_digit)
  qed
qed

lemma undec_zeros: "undec (replicate k (CHR ''0'') @ s) = undec s"
  by (induction k) (simp_all add: undec_def)

lemma undec_zfill: "undec (zfill w (dec n)) = n"
  by (simp add: zfill_def undec_zeros undec_dec)

lemma box_name_inj: "box_name m = box_name n \<Longrightarrow> m = n"
proof -
  assume "box_name m = box_name n"
  then have "zfill 3 (dec m) = zfill 3 (dec n)" by (simp add: box_name_def)
  then have "undec (zfill 3 (dec m)) = undec (zfill 3 (dec n))" by simp
  then show ?thesis by (simp only: undec_zfill)
qed

lemma finite_taken: "finite {n. c \<le> n \<and> box_name n \<in> set ex}"
proof -
  have "inj box_name" by (rule injI) (rule box_name_inj)
  then have "finite (box_name -` set ex)" by (simp add: finite_vimageI)
  moreover have "{n. c \<le> n \<and> box_name n \<in> set ex} \<subseteq> box_name -` set ex" by auto
  ultimately show ?thesis by (rule rev_finite_subset)
qed

termination generate_box_id_from
proof (relation "measure (\<lambda>(ex, c). card {n. c \<le> n \<and> box_name n \<in> set ex})")
  show "wf (measure (\<lambda>(ex, c). card {n. c \<le> n \<and> box_name n \<in> set ex}))" by simp
next
  fix existing :: "string list" and counter :: nat
  assume taken: "box_name counter \<in> set existing"
  have "{n. counter + 1 \<le> n \<and> box_name n \<in> set existing}
          \<subset> {n. counter \<le> n \<and> box_name n \<in> set existing}"
  proof
    show "{n. counter + 1 \<le> n \<and> box_name n \<in> set existing}
            \<subseteq> {n. counter \<le> n \<and> box_name n \<in> set existing}" by auto
    have "counter \<in> {n. counter \<le> n \<and> box_name n \<in> set existing}" using taken by simp
    moreover have "counter \<notin> {n. counter + 1 \<le> n \<and> box_name n \<in> set existing}" by simp
    ultimately show "{n. counter + 1 \<le> n \<and> box_name n \<in> set existing}
            \<noteq> {n. counter \<le> n \<and> box_name n \<in> set existing}" by blast
  qed
  then have "card {n. counter + 1 \<le> n \<and> box_name n \<in> set existing}
          < card {n. counter \<le> n \<and> box_name n \<in> set existing}"
    by (rule psubset_card_mono [OF finite_taken])
  then show "((existing, counter + 1), (existing, counter))
          \<in> measure (\<lambda>(ex, c). card {n. c \<le> n \<and> box_name n \<in> set ex})"
    by simp
qed

declare generate_box_id_from.simps [simp del]

lemma generate_from_spec:
  "\<exists>k\<ge>c. generate_box_id_from ex c = box_name k \<and> box_name k \<notin> set ex \<and>
     (\<forall>j. c \<le> j \<and> j < k \<longrightarrow> box_name j \<in> set ex)"
proof (induction ex c rule: generate_box_id_from.induct)
  case (1 existing counter)
  show ?case
  proof (cases "box_name counter \<in> set existing")
    case False
    then have "generate_box_id_from existing counter = box_name counter"
      by (simp add: generate_box_id_from.simps [of existing counter])
    with False show ?thesis by auto
  next
    case True
    from 1 [OF True] obtain k where k: "counter + 1 \<le> k"
      "generate_box_id_from existing (counter + 1) = box_name k"
      "box_name k \<notin> set existing"
      "\<forall>j. counter + 1 \<le> j \<and> j < k \<longrightarrow> box_name j \<in> set existing"
      by blast
    have eq: "generate_box_id_from existing counter = box_name k"
      using True k(2) by (simp add: generate_box_id_from.simps [of existing counter])
    have "\<forall>j. counter \<le> j \<and> j < k \<longrightarrow> box_name j \<in> set existing"
    proof (intro allI impI)
      fix j assume j: "counter \<le> j \<and> j < k"
      show "box_name j \<in> set existing"
      proof (cases "j = counter")
        case True with \<open>box_name counter \<in> set existing\<close> show ?thesis by simp
      next
        case False with j k(4) show ?thesis by simp
      qed
    qed
    with eq k(1,3) show ?thesis
      by (metis Suc_eq_plus1 Suc_leD)
  qed
qed

subsection \<open>Search\<close>

lemma contains_empty: "contains [] c"
  by (induction c) simp_all

text \<open>
  C9. A search with the empty query renders an empty result list, although the empty
  string occurs in every content.
\<close>

theorem search_empty_query:
  "search s [] = Done s (Render_search [] []) \<and> contains [] (lower content)"
  by (simp add: search_def search_results_def lower_def contains_empty)

subsection \<open>Viewing a box that exists\<close>

text \<open>
  C10. When the record of \<open>box_id\<close> exists, \<open>view_box\<close> ends with the very store it
  started from, whatever the QR encoder does: no box and no photo is touched.
\<close>

theorem view_existing_box_unchanged:
  "exists s (box_file box_id) = Inr True \<Longrightarrow>
     final_state (view_box qr_png s t host_url box_id) = s"
  by (simp add: view_box_def get_box_content_def box_page_def final_state_def split: sum.splits)

theorem view_existing_box_witness:
  "exists example_store (box_file ''box-001'') = Inr True \<and>
   final_state (view_box example_qr example_store 9 ''http://host/'' ''box-001'') = example_store"
proof -
  have h: "exists example_store (box_file ''box-001'') = Inr True" by code_simp
  show ?thesis using h view_existing_box_unchanged [OF h] by simp
qed

subsection \<open>Extensions of uploaded files\<close>

lemma takeWhile_until: "a \<notin> set xs \<Longrightarrow> takeWhile (\<lambda>c. c \<noteq> a) (xs @ a # ys) = xs"
  by (induction xs) auto

lemma after_last_dot:
  "CHR ''.'' \<notin> set ext \<Longrightarrow>
     rev (takeWhile (\<lambda>c. c \<noteq> CHR ''.'') (rev (stem @ CHR ''.'' # ext))) = ext"
proof -
  assume "CHR ''.'' \<notin> set ext"
  then have "takeWhile (\<lambda>c. c \<noteq> CHR ''.'') (rev ext @ CHR ''.'' # rev stem) = rev ext"
    by (simp add: takeWhile_until)
  then show ?thesis by simp
qed

lemma rsplit1_ext:
  "CHR ''.'' \<notin> set ext \<Longrightarrow> rsplit1 (CHR ''.'') (stem @ CHR ''.'' # ext) ! 1 = ext"
  using after_last_dot [of ext stem] by (simp add: rsplit1_def)

lemma split_at_last_dot:
  assumes "CHR ''.'' \<in> set name"
  shows "\<exists>stem ext. name = stem @ CHR ''.'' # ext \<and> CHR ''.'' \<notin> set ext"
proof -
  let ?P = "\<lambda>c. c \<noteq> CHR ''.''"
  have "dropWhile ?P (rev name) \<noteq> []" using assms by simp
  moreover have "hd (dropWhile ?P (rev name)) = CHR ''.''"
    using calculation hd_dropWhile [of ?P "rev name"] by blast
  ultimately have d: "dropWhile ?P (rev name) = CHR ''.'' # tl (dropWhile ?P (rev name))"
    by (metis list.collapse)
  have "rev name = takeWhile ?P (rev name) @ dropWhile ?P (rev name)" by simp
  then have "rev name = takeWhile ?P (rev name) @ CHR ''.'' # tl (dropWhile ?P (rev name))"
    using d by simp
  then have "name = rev (tl (dropWhile ?P (rev name))) @ CHR ''.'' # rev (takeWhile ?P (rev name))"
    by (metis rev_rev_ident rev_append rev.simps(2) append.assoc append_Cons append_Nil)
  moreover have "CHR ''.'' \<notin> set (rev (takeWhile ?P (rev name)))"
    by (auto dest: set_takeWhileD)
  ultimately show ?thesis by blast
qed

text \<open>
  \<open>allowed_file\<close> accepts exactly the names \<open>stem.ext\<close> whose extension, the text after the
  last dot, is one of the allowed ones once lowercased.
\<close>

lemma allowed_file_iff:
  "allowed_file filename \<longleftrightarrow>
     (\<exists>stem ext. filename = stem @ CHR ''.'' # ext \<and> CHR ''.'' \<notin> set ext \<and>
        lower ext \<in> set ALLOWED_EXTENSIONS)"
proof
  assume a: "allowed_file filename"
  then have "CHR ''.'' \<in> set filename" by (simp add: allowed_file_def)
  from split_at_last_dot [OF this] obtain stem ext where
    f: "filename = stem @ CHR ''.'' # ext" "CHR ''.'' \<notin> set ext" by blast
  with a have "lower ext \<in> set ALLOWED_EXTENSIONS"
    using rsplit1_ext [OF f(2), of stem] by (simp add: allowed_file_def)
  with f show "\<exists>stem ext. filename = stem @ CHR ''.'' # ext \<and> CHR ''.'' \<notin> set ext \<and>
        lower ext \<in> set ALLOWED_EXTENSIONS" by blast
next
  assume "\<exists>stem ext. filename = stem @ CHR ''.'' # ext \<and> CHR ''.'' \<notin> set ext \<and>
        lower ext \<in> set ALLOWED_EXTENSIONS"
  then obtain stem ext where
    f: "filename = stem @ CHR ''.'' # ext" "CHR ''.'' \<notin> set ext"
       "lower ext \<in> set ALLOWED_EXTENSIONS" by blast
  have "rsplit1 (CHR ''.'') filename ! 1 = ext" using rsplit1_ext [OF f(2)] f(1) by simp
  with f show "allowed_file filename" by (simp add: allowed_file_def)
qed

text \<open>
  C7. An upload whose file name is not of the form \<open>stem.ext\<close> with \<open>ext\<close>, lowercased, among
  png, jpg, jpeg, gif and webp does nothing: the handler redirects, the store is the one
  it started from, and the photo list of the box is as before.
\<close>

theorem upload_disallowed_extension_noop:
  assumes "\<not> (\<exists>stem ext. up_filename file = stem @ CHR ''.'' # ext \<and> CHR ''.'' \<notin> set ext \<and>
                 lower ext \<in> set ALLOWED_EXTENSIONS)"
  shows "upload_photo s now t box_id (Some file) = Done s (Redirect_view_box box_id) \<and>
         get_box_photos (final_state (upload_photo s now t box_id (Some file))) box_id
           = get_box_photos s box_id"
proof -
  from assms have "\<not> allowed_file (up_filename file)" using allowed_file_iff by blast
  then have "upload_photo s now t box_id (Some file) = Done s (Redirect_view_box box_id)"
    by (simp add: upload_photo_def)
  then show ?thesis by (simp add: final_state_def)
qed

theorem upload_disallowed_extension_witness:
  "\<not> (\<exists>stem ext. ''virus.exe'' = stem @ CHR ''.'' # ext \<and> CHR ''.'' \<notin> set ext \<and>
         lower ext \<in> set ALLOWED_EXTENSIONS) \<and>
   upload_photo example_store example_time 9 ''box-001''
       (Some \<lparr>up_filename = ''virus.exe'', up_data = ''MZ''\<rparr>)
     = Done example_store (Redirect_view_box ''box-001'')"
proof -
  have "\<not> allowed_file ''virus.exe''" by code_simp
  then have h: "\<not> (\<exists>stem ext. up_filename \<lparr>up_filename = ''virus.exe'', up_data = ''MZ''\<rparr>
                      = stem @ CHR ''.'' # ext \<and> CHR ''.'' \<notin> set ext \<and>
                      lower ext \<in> set ALLOWED_EXTENSIONS)"
    using allowed_file_iff [of "''virus.exe''"] by simp
  show ?thesis
    using h upload_disallowed_extension_noop [OF h, of example_store example_time 9 "''box-001''"]
    by simp
qed

subsection \<open>Paths and the file system\<close>

lemma BOXES_DIR_eq: "BOXES_DIR = [''data'', ''boxes'']"
  by code_simp

lemma PHOTOS_DIR_eq: "PHOTOS_DIR = [''data'', ''photos'']"
  by code_simp

lemma short_names:
  "\<not> 255 < name_bytes ''data''" "\<not> 255 < name_bytes ''boxes''" "\<not> 255 < name_bytes ''photos''"
  by code_simp+

lemma has_nul_Nil: "has_nul [] = False"
  by (simp add: has_nul_def)

lemma has_nul_Cons: "has_nul (c # p) = (NUL \<in> set c \<or> has_nul p)"
  by (simp add: has_nul_def)

lemma has_nul_append: "has_nul (p @ p') = (has_nul p \<or> has_nul p')"
  by (simp add: has_nul_def)

lemma valid_name_bytes: "valid_name x \<Longrightarrow> \<not> 255 < name_bytes x"
  by (simp add: valid_name_def)

lemma valid_name_nul: "valid_name x \<Longrightarrow> NUL \<notin> set x"
  by (simp add: valid_name_def)

lemma split_on_no_sep: "sep \<notin> set x \<Longrightarrow> split_on sep x = [x]"
  by (induction x) auto

lemma joinpath_plain:
  "x \<noteq> [] \<Longrightarrow> CHR ''/'' \<notin> set x \<Longrightarrow> x \<noteq> ''.'' \<Longrightarrow> joinpath p x = p @ [x]"
  by (cases x) (auto simp add: joinpath_def parts_def split_on_no_sep)

lemma box_file_route: "CHR ''/'' \<notin> set box_id \<Longrightarrow> box_file box_id = BOXES_DIR @ [box_id @ ''.md'']"
proof -
  assume a: "CHR ''/'' \<notin> set box_id"
  have "box_id @ ''.md'' \<noteq> ''.''" by (cases box_id) auto
  moreover have "CHR ''/'' \<notin> set (box_id @ ''.md'')" using a by simp
  ultimately show ?thesis unfolding box_file_def by (intro joinpath_plain) auto
qed

lemma node_at_update:
  "q \<noteq> [] \<Longrightarrow> node_at (AList.update q n s) x = (if x = q then Some n else node_at s x)"
  by (simp add: node_at_def update_conv')

lemma node_at_delete:
  "q \<noteq> [] \<Longrightarrow> node_at (AList.delete q s) x = (if x = q then None else node_at s x)"
  by (simp add: node_at_def delete_conv')

lemma node_at_root: "node_at s [] = Some Dir"
  by (simp add: node_at_def)

text \<open>Writing a file does not disturb the way to it.\<close>

lemma walk_update_target:
  "walk s cur p = Inr q \<Longrightarrow> node_at s q \<noteq> Some Dir \<Longrightarrow> walk (AList.update q n s) cur p = Inr q"
proof (induction p arbitrary: cur)
  case Nil
  then show ?case by simp
next
  case (Cons c cs)
  from Cons.prems(1) have d: "node_at s cur = Some Dir"
    by (auto split: option.splits node.splits)
  from Cons.prems(1) d have len: "\<not> 255 < name_bytes c"
    by (auto split: if_splits)
  from d Cons.prems(2) have ne: "cur \<noteq> q" by auto
  from Cons.prems(2) have "q \<noteq> []" by (auto simp add: node_at_root)
  with ne d have d': "node_at (AList.update q n s) cur = Some Dir" by (simp add: node_at_update)
  from Cons.prems(1) d len have "walk s (if c = ''..'' then butlast cur else cur @ [c]) cs = Inr q"
    by simp
  from Cons.IH [OF this Cons.prems(2)] d' len show ?case by simp
qed

lemma locate_Inr: "locate s p = Inr q \<Longrightarrow> \<not> has_nul p \<and> walk s [] p = Inr q"
  by (auto simp add: locate_def split: if_splits)

lemma write_then_read_bytes:
  assumes "write_file s t p c = Inr s'"
  shows "read_bytes s' p = Inr c \<and> exists s' p = Inr True"
proof -
  from assms obtain q where q: "locate s p = Inr q" "node_at s q \<noteq> Some Dir"
    "s' = AList.update q (File c t) s"
    by (auto simp add: write_file_def split: sum.splits option.splits node.splits)
  from q(2) have ne: "q \<noteq> []" by (auto simp add: node_at_root)
  from locate_Inr [OF q(1)] have w: "\<not> has_nul p" "walk s [] p = Inr q" by simp_all
  from walk_update_target [OF w(2) q(2)] w(1) have "locate s' p = Inr q"
    by (simp add: locate_def q(3))
  moreover have "node_at s' q = Some (File c t)" using ne by (simp add: q(3) node_at_update)
  ultimately show ?thesis by (simp add: read_bytes_def exists_def)
qed



lemma locate_box_file:
  assumes "store_ready s" "CHR ''/'' \<notin> set box_id" "valid_name (box_id @ ''.md'')"
  shows "locate s (box_file box_id) = Inr (box_file box_id)"
proof -
  from assms(1) have "node_at s [''data''] = Some Dir" "node_at s [''data'', ''boxes''] = Some Dir"
    by (simp_all add: store_ready_def DATA_DIR_def BOXES_DIR_eq)
  moreover have "box_id @ ''.md'' \<noteq> ''..''" by (cases box_id) auto
  moreover have "\<not> has_nul [''data'', ''boxes'', box_id @ ''.md'']"
    using valid_name_nul [OF assms(3)] by (simp add: has_nul_Cons has_nul_Nil)
  ultimately show ?thesis
    using valid_name_bytes [OF assms(3)] short_names
    by (simp add: box_file_route [OF assms(2)] BOXES_DIR_eq locate_def node_at_root)
qed


text \<open>
  A record name the file system refuses: \<open>write\<close> raises, for a name of more than 255
  bytes and for a name with a NUL.
\<close>

lemma save_long_name:
  assumes "store_ready s" "CHR ''/'' \<notin> set box_id" "255 < name_bytes (box_id @ ''.md'')"
    and "NUL \<notin> set box_id"
  shows "save_box_content s t box_id content = Inl NameTooLong"
proof -
  from assms(1) have "node_at s [''data''] = Some Dir" "node_at s [''data'', ''boxes''] = Some Dir"
    by (simp_all add: store_ready_def DATA_DIR_def BOXES_DIR_eq)
  moreover have "\<not> has_nul [''data'', ''boxes'', box_id @ ''.md'']"
    using assms(4) by (simp add: has_nul_Cons has_nul_Nil)
  ultimately have "locate s (box_file box_id) = Inl NameTooLong"
    using assms(3) short_names
    by (simp add: box_file_route [OF assms(2)] BOXES_DIR_eq locate_def node_at_root)
  then show ?thesis by (simp add: save_box_content_def write_file_def)
qed

lemma save_nul_name:
  assumes "CHR ''/'' \<notin> set box_id" "NUL \<in> set box_id"
  shows "save_box_content s t box_id content = Inl ValueError"
proof -
  have "has_nul (box_file box_id)"
    using assms(2) by (simp add: box_file_route [OF assms(1)] has_nul_append has_nul_Cons)
  then show ?thesis by (simp add: save_box_content_def write_file_def locate_def)
qed

subsection \<open>Writing and reading a record\<close>




subsection \<open>Viewing a box that does not exist\<close>





lemma walk_errors:
  "walk s cur p = Inl e \<Longrightarrow>
     e = FileNotFoundError \<or> e = NotADirectoryError \<or>
     (e = NameTooLong \<and> (\<exists>c\<in>set p. 255 < name_bytes c))"
proof (induction p arbitrary: cur)
  case Nil
  then show ?case by simp
next
  case (Cons c cs)
  show ?case
  proof (cases "node_at s cur")
    case None
    with Cons.prems show ?thesis by simp
  next
    case (Some nd)
    show ?thesis
    proof (cases nd)
      case (File x y)
      with Some Cons.prems show ?thesis by simp
    next
      case Dir
      show ?thesis
      proof (cases "255 < name_bytes c")
        case True
        with Some Dir Cons.prems show ?thesis by simp
      next
        case False
        with Some Dir Cons.prems
        have "walk s (if c = ''..'' then butlast cur else cur @ [c]) cs = Inl e" by simp
        from Cons.IH [OF this] show ?thesis by auto
      qed
    qed
  qed
qed

lemma exists_total:
  assumes "\<forall>c\<in>set p. \<not> 255 < name_bytes c"
  shows "\<exists>b. exists s p = Inr b"
proof (cases "locate s p")
  case (Inr q)
  then show ?thesis by (simp add: exists_def)
next
  case (Inl e)
  have "ignored_error e"
  proof (cases "has_nul p")
    case True
    with Inl show ?thesis by (simp add: locate_def ignored_error_def)
  next
    case False
    with Inl have "walk s [] p = Inl e" by (simp add: locate_def)
    from walk_errors [OF this] assms show ?thesis by (auto simp add: ignored_error_def)
  qed
  with Inl have "exists s p = Inr False" by (simp add: exists_def)
  then show ?thesis by blast
qed

lemma glob_star_total:
  assumes "\<forall>c\<in>set p. \<not> 255 < name_bytes c"
  shows "\<exists>fs. glob_star s p = Inr fs"
proof (cases "locate s p")
  case (Inr q)
  then show ?thesis by (simp add: glob_star_def)
next
  case (Inl e)
  have "ignored_error e"
  proof (cases "has_nul p")
    case True
    with Inl show ?thesis by (simp add: locate_def ignored_error_def)
  next
    case False
    with Inl have "walk s [] p = Inl e" by (simp add: locate_def)
    from walk_errors [OF this] assms show ?thesis by (auto simp add: ignored_error_def)
  qed
  with Inl have "glob_star s p = Inr []" by (simp add: glob_star_def)
  then show ?thesis by blast
qed











subsection \<open>Titles in the list of boxes\<close>

lemma split_on_not_Nil: "split_on sep s \<noteq> []"
  by (induction s) (auto split: list.splits)

text \<open>
  \<open>split\<close> never returns the empty list, so the branch of \<open>title_of\<close> that falls back to
  the box id is never taken.
\<close>

lemma title_of_no_fallback:
  "title_of box_id content = strip (lstrip_chars ''# '' (hd (split_on LF (strip content))))"
  using split_on_not_Nil [of LF "strip content"]
  by (cases "split_on LF (strip content)") (simp_all add: title_of_def)

text \<open>
  C5 at a box whose record is empty: \<open>get_all_boxes\<close> reports the empty title, not the id
  \<open>box-001\<close>.
\<close>

theorem empty_box_title_is_empty:
  "get_box_content empty_box_store ''box-001'' = Inr (Some []) \<and>
   get_all_boxes empty_box_store
     = Inr [\<lparr>bi_id = ''box-001'', bi_title = [], bi_modified = 5\<rparr>]"
  by code_simp

subsection \<open>Names of stored photos\<close>

lemma stored_name_eq:
  "CHR ''.'' \<notin> set ext \<Longrightarrow>
     stored_name now (stem @ CHR ''.'' # ext) = strftime now @ CHR ''.'' # lower ext"
  using rsplit1_ext [of ext stem] by (simp add: stored_name_def)

lemma dec_digits: "c \<in> set (dec n) \<Longrightarrow> 48 \<le> (of_char c :: nat) \<and> (of_char c :: nat) \<le> 57"
proof (induction n rule: dec.induct)
  case (1 n)
  show ?case
  proof (cases "n < 10")
    case True
    with "1.prems" show ?thesis by (auto simp add: dec.simps [of n] of_char_digit)
  next
    case False
    with "1.prems" have "c \<in> set (dec (n div 10)) \<or> c = digit_char (n mod 10)"
      by (auto simp add: dec.simps [of n])
    then show ?thesis
    proof
      assume "c \<in> set (dec (n div 10))"
      with 1 False show ?thesis by simp
    next
      assume "c = digit_char (n mod 10)"
      then show ?thesis by (simp add: of_char_digit)
    qed
  qed
qed

lemma dec_not_Nil: "dec n \<noteq> []"
  by (simp add: dec.simps [of n])

lemma zfill_digits:
  "c \<in> set (zfill w (dec n)) \<Longrightarrow> 48 \<le> (of_char c :: nat) \<and> (of_char c :: nat) \<le> 57"
  by (auto simp add: zfill_def dest: dec_digits)

lemma strftime_chars:
  "c \<in> set (strftime dt) \<Longrightarrow> (48 \<le> (of_char c :: nat) \<and> (of_char c :: nat) \<le> 57) \<or> c = CHR ''_''"
  by (auto simp add: strftime_def dest: dec_digits zfill_digits)

lemma strftime_no_slash: "CHR ''/'' \<notin> set (strftime dt)"
  using strftime_chars [of "CHR ''/''" dt] by auto

lemma strftime_not_Nil: "strftime dt \<noteq> []"
  by (simp add: strftime_def dec_not_Nil)

lemma allowed_ext_chars:
  "e \<in> set ALLOWED_EXTENSIONS \<Longrightarrow> e \<noteq> [] \<and> CHR ''/'' \<notin> set e \<and> CHR ''.'' \<notin> set e"
  by (auto simp add: ALLOWED_EXTENSIONS_def)

lemma stored_name_plain:
  assumes "e \<in> set ALLOWED_EXTENSIONS"
  shows "plain_segment (strftime now @ CHR ''.'' # e)"
proof -
  from allowed_ext_chars [OF assms] have e: "e \<noteq> []" "CHR ''/'' \<notin> set e" by simp_all
  obtain c cs where ts: "strftime now = c # cs"
    using strftime_not_Nil [of now] by (cases "strftime now") auto
  have "strftime now @ CHR ''.'' # e \<noteq> ''.''" by (simp add: ts)
  moreover have "strftime now @ CHR ''.'' # e \<noteq> ''..''"
    using e(1) by (cases cs) (simp_all add: ts)
  moreover have "CHR ''/'' \<notin> set (strftime now @ CHR ''.'' # e)"
    using e(2) strftime_no_slash by simp
  ultimately show ?thesis by (simp add: plain_segment_def)
qed

lemma joinpath_segment: "plain_segment x \<Longrightarrow> joinpath p x = p @ [x]"
  by (simp add: plain_segment_def joinpath_plain)

lemma upload_stores_data:
  assumes "allowed_file (up_filename file)"
    and "upload_photo s now t box_id (Some file) = Done s' r"
  shows "read_bytes s' (joinpath (box_photos_dir box_id) (stored_name now (up_filename file)))
           = Inr (up_data file)"
proof -
  from assms(1) have ne: "up_filename file \<noteq> []" by (auto simp add: allowed_file_def)
  from assms ne obtain s1 where
    "write_file s1 t (joinpath (box_photos_dir box_id) (stored_name now (up_filename file)))
       (up_data file) = Inr s'"
    by (auto simp add: upload_photo_def split: sum.splits)
  from write_then_read_bytes [OF this] show ?thesis by simp
qed

lemma locate_photos_child:
  assumes "store_ready s" "file_name x"
  shows "locate s (PHOTOS_DIR @ [x]) = Inr (PHOTOS_DIR @ [x])"
proof -
  from assms(1) have "node_at s [''data''] = Some Dir" "node_at s [''data'', ''photos''] = Some Dir"
    by (simp_all add: store_ready_def DATA_DIR_def PHOTOS_DIR_eq)
  moreover from assms(2) have "x \<noteq> ''..''" "\<not> 255 < name_bytes x" "NUL \<notin> set x"
    by (simp_all add: file_name_def plain_segment_def valid_name_def)
  ultimately show ?thesis
    using short_names
    by (simp add: PHOTOS_DIR_eq locate_def node_at_root has_nul_Cons has_nul_Nil)
qed

lemma locate_photo_file:
  assumes "store_ready s" "file_name x" "file_name y"
    and "node_at s (PHOTOS_DIR @ [x]) = Some Dir"
  shows "locate s (PHOTOS_DIR @ [x, y]) = Inr (PHOTOS_DIR @ [x, y])"
proof -
  from assms(1) have "node_at s [''data''] = Some Dir" "node_at s [''data'', ''photos''] = Some Dir"
    by (simp_all add: store_ready_def DATA_DIR_def PHOTOS_DIR_eq)
  moreover from assms(2,3) have "x \<noteq> ''..''" "y \<noteq> ''..''"
    "\<not> 255 < name_bytes x" "\<not> 255 < name_bytes y" "NUL \<notin> set x" "NUL \<notin> set y"
    by (simp_all add: file_name_def plain_segment_def valid_name_def)
  moreover from assms(4) have "node_at s [''data'', ''photos'', x] = Some Dir"
    by (simp add: PHOTOS_DIR_eq)
  ultimately show ?thesis
    using short_names
    by (simp add: PHOTOS_DIR_eq locate_def node_at_root has_nul_Cons has_nul_Nil)
qed

lemma store_ready_update:
  "store_ready s \<Longrightarrow> store_ready (AList.update (PHOTOS_DIR @ [x]) n s)"
  by (simp add: store_ready_def node_at_update PHOTOS_DIR_eq BOXES_DIR_eq DATA_DIR_def)

lemma mkdir_photos_child:
  assumes "store_ready s" "file_name x"
    and "\<forall>c t. node_at s (PHOTOS_DIR @ [x]) \<noteq> Some (File c t)"
  shows "\<exists>s1. mkdir_exist_ok s (PHOTOS_DIR @ [x]) = Inr s1 \<and> store_ready s1 \<and>
              node_at s1 (PHOTOS_DIR @ [x]) = Some Dir \<and>
              (\<forall>y. y \<noteq> PHOTOS_DIR @ [x] \<longrightarrow> node_at s1 y = node_at s y)"
proof (cases "node_at s (PHOTOS_DIR @ [x])")
  case None
  then show ?thesis
    using locate_photos_child [OF assms(1,2)] store_ready_update [OF assms(1)]
    by (simp add: mkdir_exist_ok_def node_at_update)
next
  case (Some n)
  with assms(3) have "n = Dir" by (cases n) auto
  with Some show ?thesis
    using locate_photos_child [OF assms(1,2)] assms(1)
    by (simp add: mkdir_exist_ok_def)
qed

lemma length_dec: "length (dec n) = (if n < 10 then 1 else 1 + length (dec (n div 10)))"
  by (simp add: dec.simps [of n])

lemma length_dec_lt_100: "n < 100 \<Longrightarrow> length (zfill 2 (dec n)) = 2"
proof -
  assume "n < 100"
  then have "n div 10 < 10" by arith
  then show ?thesis by (simp add: zfill_def length_dec [of n] length_dec [of "n div 10"])
qed

lemma length_dec_year: "1000 \<le> n \<Longrightarrow> n \<le> 9999 \<Longrightarrow> length (dec n) = 4"
proof -
  assume a: "1000 \<le> n" "n \<le> 9999"
  define a1 where "a1 = n div 10"
  define a2 where "a2 = a1 div 10"
  define a3 where "a3 = a2 div 10"
  from a have b1: "100 \<le> a1" "a1 \<le> 999" unfolding a1_def by arith+
  from b1 have b2: "10 \<le> a2" "a2 \<le> 99" unfolding a2_def by arith+
  from b2 have b3: "a3 < 10" unfolding a3_def by arith
  have "length (dec a3) = 1" using b3 by (simp add: length_dec [of a3])
  then have "length (dec a2) = 2" using b2 by (simp add: length_dec [of a2] a3_def)
  then have "length (dec a1) = 3" using b1 by (simp add: length_dec [of a1] a2_def)
  then show "length (dec n) = 4" using a by (simp add: length_dec [of n] a1_def)
qed

lemma strftime_shape:
  assumes "calendar_time dt"
  shows "length (strftime dt) = 15 \<and> strftime dt ! 8 = CHR ''_''"
proof -
  from assms have l: "length (dec (year dt)) = 4" "length (zfill 2 (dec (month dt))) = 2"
    "length (zfill 2 (dec (day dt))) = 2" "length (zfill 2 (dec (hour dt))) = 2"
    "length (zfill 2 (dec (minute dt))) = 2" "length (zfill 2 (dec (second dt))) = 2"
    by (simp_all add: calendar_time_def length_dec_year length_dec_lt_100)
  then show ?thesis by (simp add: strftime_def nth_append)
qed

lemma digit_char_0: "digit_char 0 = CHR ''0''"
  by code_simp

text \<open>The two-digit fields and the four-digit year, digit by digit.\<close>

lemma zfill_dec_lt_100:
  "n < 100 \<Longrightarrow> zfill 2 (dec n) = [digit_char (n div 10), digit_char (n mod 10)]"
proof (cases "n < 10")
  case True
  then show ?thesis by (simp add: zfill_def dec.simps [of n] digit_char_0)
next
  case False
  assume "n < 100"
  then have "n div 10 < 10" by arith
  with False show ?thesis by (simp add: zfill_def dec.simps [of n] dec.simps [of "n div 10"])
qed

lemma dec_year:
  assumes "1000 \<le> n" "n \<le> 9999"
  shows "dec n = [digit_char (n div 1000), digit_char (n div 100 mod 10),
                  digit_char (n div 10 mod 10), digit_char (n mod 10)]"
proof -
  define a1 where "a1 = n div 10"
  define a2 where "a2 = n div 100"
  define a3 where "a3 = n div 1000"
  have d2: "a1 div 10 = a2" unfolding a1_def a2_def by (simp add: div_mult2_eq [symmetric])
  have d3: "a2 div 10 = a3" unfolding a2_def a3_def by (simp add: div_mult2_eq [symmetric])
  from assms have b1: "\<not> a1 < 10" unfolding a1_def by arith
  from assms have b2: "\<not> a2 < 10" unfolding a2_def by arith
  from assms have b3: "a3 < 10" unfolding a3_def by arith
  have "dec a3 = [digit_char a3]" using b3 by (simp add: dec.simps [of a3])
  then have "dec a2 = [digit_char a3, digit_char (a2 mod 10)]"
    using b2 by (simp add: dec.simps [of a2] d3)
  then have "dec a1 = [digit_char a3, digit_char (a2 mod 10), digit_char (a1 mod 10)]"
    using b1 by (simp add: dec.simps [of a1] d2)
  moreover from assms have "\<not> n < 10" by arith
  ultimately have "dec n = [digit_char a3, digit_char (a2 mod 10), digit_char (a1 mod 10),
                           digit_char (n mod 10)]"
    using a1_def by (simp add: dec.simps [of n])
  then show ?thesis by (simp only: a1_def a2_def a3_def)
qed

lemma strftime_digits:
  assumes "calendar_time dt"
  shows "strftime dt =
     [digit_char (year dt div 1000), digit_char (year dt div 100 mod 10),
      digit_char (year dt div 10 mod 10), digit_char (year dt mod 10),
      digit_char (month dt div 10), digit_char (month dt mod 10),
      digit_char (day dt div 10), digit_char (day dt mod 10), CHR ''_'',
      digit_char (hour dt div 10), digit_char (hour dt mod 10),
      digit_char (minute dt div 10), digit_char (minute dt mod 10),
      digit_char (second dt div 10), digit_char (second dt mod 10)]"
proof -
  from assms have y: "1000 \<le> year dt" "year dt \<le> 9999" by (simp_all add: calendar_time_def)
  from assms have f: "month dt < 100" "day dt < 100" "hour dt < 100" "minute dt < 100"
    "second dt < 100" by (simp_all add: calendar_time_def)
  show ?thesis
    by (simp add: strftime_def dec_year [OF y] zfill_dec_lt_100 [OF f(1)] zfill_dec_lt_100 [OF f(2)]
          zfill_dec_lt_100 [OF f(3)] zfill_dec_lt_100 [OF f(4)] zfill_dec_lt_100 [OF f(5)])
qed

lemma name_bytes_ascii: "\<forall>c\<in>set x. is_ascii c \<Longrightarrow> name_bytes x = length x"
  by (simp add: name_bytes_def filter_empty_conv)

lemma strftime_ascii: "c \<in> set (strftime dt) \<Longrightarrow> is_ascii c \<and> c \<noteq> NUL"
proof -
  assume "c \<in> set (strftime dt)"
  from strftime_chars [OF this] show ?thesis
  proof
    assume "48 \<le> (of_char c :: nat) \<and> (of_char c :: nat) \<le> 57"
    then show ?thesis by (auto simp add: is_ascii_def)
  next
    assume "c = CHR ''_''"
    then show ?thesis by (simp add: is_ascii_def)
  qed
qed

lemma allowed_ext_valid:
  "e \<in> set ALLOWED_EXTENSIONS \<Longrightarrow> (\<forall>c\<in>set e. is_ascii c \<and> c \<noteq> NUL) \<and> length e \<le> 4"
  by (auto simp add: ALLOWED_EXTENSIONS_def is_ascii_def)

lemma stored_name_valid:
  assumes "calendar_time now" "e \<in> set ALLOWED_EXTENSIONS"
  shows "file_name (strftime now @ CHR ''.'' # e)"
proof -
  from allowed_ext_valid [OF assms(2)] have e: "\<forall>c\<in>set e. is_ascii c \<and> c \<noteq> NUL" "length e \<le> 4"
    by simp_all
  have a: "\<forall>c\<in>set (strftime now @ CHR ''.'' # e). is_ascii c \<and> c \<noteq> NUL"
    using e(1) strftime_ascii [of _ now] by (auto simp add: is_ascii_def)
  then have "name_bytes (strftime now @ CHR ''.'' # e) = length (strftime now @ CHR ''.'' # e)"
    by (intro name_bytes_ascii) blast
  moreover have "length (strftime now) = 15" using strftime_shape [OF assms(1)] by simp
  ultimately have "name_bytes (strftime now @ CHR ''.'' # e) \<le> 255" using e(2) by simp
  moreover from a have "NUL \<notin> set (strftime now @ CHR ''.'' # e)" by blast
  ultimately show ?thesis
    using stored_name_plain [OF assms(2), of now] by (simp add: file_name_def valid_name_def)
qed

lemma upload_succeeds:
  assumes fn: "up_filename file = stem @ CHR ''.'' # ext" "CHR ''.'' \<notin> set ext"
              "lower ext \<in> set ALLOWED_EXTENSIONS"
    and st: "store_ready s" "file_name box_id" "calendar_time now"
            "\<forall>c t. node_at s (PHOTOS_DIR @ [box_id]) \<noteq> Some (File c t)"
            "node_at s (PHOTOS_DIR @ [box_id, strftime now @ CHR ''.'' # lower ext]) \<noteq> Some Dir"
  shows "\<exists>s'. upload_photo s now t box_id (Some file) = Done s' (Redirect_view_box box_id)"
proof -
  let ?name = "strftime now @ CHR ''.'' # lower ext"
  have al: "allowed_file (up_filename file)" using fn allowed_file_iff by blast
  then have ne: "up_filename file \<noteq> []" by (auto simp add: allowed_file_def)
  have sn: "stored_name now (up_filename file) = ?name" using fn(1,2) by (simp add: stored_name_eq)
  have fnm: "file_name ?name" by (rule stored_name_valid [OF st(3) fn(3)])
  then have pn: "plain_segment ?name" by (simp add: file_name_def)
  from st(2) have pb: "plain_segment box_id" by (simp add: file_name_def)
  have dir: "box_photos_dir box_id = PHOTOS_DIR @ [box_id]"
    by (simp add: box_photos_dir_def joinpath_segment [OF pb])
  from mkdir_photos_child [OF st(1,2,4)] obtain s1 where
    s1: "mkdir_exist_ok s (PHOTOS_DIR @ [box_id]) = Inr s1" "store_ready s1"
        "node_at s1 (PHOTOS_DIR @ [box_id]) = Some Dir"
        "\<forall>y. y \<noteq> PHOTOS_DIR @ [box_id] \<longrightarrow> node_at s1 y = node_at s y" by blast
  have loc: "locate s1 (PHOTOS_DIR @ [box_id, ?name]) = Inr (PHOTOS_DIR @ [box_id, ?name])"
    by (rule locate_photo_file [OF s1(2) st(2) fnm s1(3)])
  have "node_at s1 (PHOTOS_DIR @ [box_id, ?name]) = node_at s (PHOTOS_DIR @ [box_id, ?name])"
    using s1(4) by simp
  with st(5) have nd: "node_at s1 (PHOTOS_DIR @ [box_id, ?name]) \<noteq> Some Dir" by simp
  have jp: "joinpath (PHOTOS_DIR @ [box_id]) ?name = PHOTOS_DIR @ [box_id, ?name]"
    using joinpath_segment [OF pn] by simp
  have "\<exists>s2. write_file s1 t (PHOTOS_DIR @ [box_id, ?name]) (up_data file) = Inr s2"
  proof (cases "node_at s1 (PHOTOS_DIR @ [box_id, ?name])")
    case None
    with loc show ?thesis by (simp add: write_file_def)
  next
    case (Some n)
    with nd loc show ?thesis by (cases n) (simp_all add: write_file_def)
  qed
  then obtain s2 where
    "write_file s1 t (PHOTOS_DIR @ [box_id, ?name]) (up_data file) = Inr s2" by blast
  with al ne s1(1) show ?thesis
    by (simp add: upload_photo_def dir sn jp)
qed

text \<open>
  C8 (as amended). For an upload named \<open>stem.ext\<close> with an allowed extension, the stored
  name is the time as \<open>%Y%m%d_%H%M%S\<close>, a dot, and the extension in lower case; for a
  calendar time these are the four digits of the year, two each of month and day, an
  underscore, and two each of hour, minute and second. Whenever the handler completes,
  the uploaded bytes are in the file of that name in the photo directory of the box. It
  completes in a store whose directories exist, at a calendar time, for a box id that
  the file system stores as a name, when no file or directory is in the way.
\<close>

theorem upload_stored_name:
  assumes "up_filename file = stem @ CHR ''.'' # ext" "CHR ''.'' \<notin> set ext"
          "lower ext \<in> set ALLOWED_EXTENSIONS"
  shows "stored_name now (up_filename file) = strftime now @ CHR ''.'' # lower ext \<and>
         (calendar_time now \<longrightarrow>
            strftime now =
              [digit_char (year now div 1000), digit_char (year now div 100 mod 10),
               digit_char (year now div 10 mod 10), digit_char (year now mod 10),
               digit_char (month now div 10), digit_char (month now mod 10),
               digit_char (day now div 10), digit_char (day now mod 10), CHR ''_'',
               digit_char (hour now div 10), digit_char (hour now mod 10),
               digit_char (minute now div 10), digit_char (minute now mod 10),
               digit_char (second now div 10), digit_char (second now mod 10)]) \<and>
         (\<forall>c\<in>set (strftime now).
            (48 \<le> (of_char c :: nat) \<and> (of_char c :: nat) \<le> 57) \<or> c = CHR ''_'') \<and>
         (\<forall>s' r. upload_photo s now t box_id (Some file) = Done s' r \<longrightarrow>
            read_bytes s' (joinpath (box_photos_dir box_id) (strftime now @ CHR ''.'' # lower ext))
              = Inr (up_data file)) \<and>
         (store_ready s \<and> file_name box_id \<and> calendar_time now \<and>
          (\<forall>c m. node_at s (PHOTOS_DIR @ [box_id]) \<noteq> Some (File c m)) \<and>
          node_at s (PHOTOS_DIR @ [box_id, strftime now @ CHR ''.'' # lower ext]) \<noteq> Some Dir \<longrightarrow>
            (\<exists>s'. upload_photo s now t box_id (Some file) = Done s' (Redirect_view_box box_id)))"
proof -
  have al: "allowed_file (up_filename file)" using assms allowed_file_iff by blast
  have sn: "stored_name now (up_filename file) = strftime now @ CHR ''.'' # lower ext"
    using assms(1,2) by (simp add: stored_name_eq)
  have dg: "calendar_time now \<longrightarrow>
            strftime now =
              [digit_char (year now div 1000), digit_char (year now div 100 mod 10),
               digit_char (year now div 10 mod 10), digit_char (year now mod 10),
               digit_char (month now div 10), digit_char (month now mod 10),
               digit_char (day now div 10), digit_char (day now mod 10), CHR ''_'',
               digit_char (hour now div 10), digit_char (hour now mod 10),
               digit_char (minute now div 10), digit_char (minute now mod 10),
               digit_char (second now div 10), digit_char (second now mod 10)]"
    using strftime_digits by blast
  have ch: "\<forall>c\<in>set (strftime now).
            (48 \<le> (of_char c :: nat) \<and> (of_char c :: nat) \<le> 57) \<or> c = CHR ''_''"
    using strftime_chars by blast
  have rd: "\<forall>s' r. upload_photo s now t box_id (Some file) = Done s' r \<longrightarrow>
            read_bytes s' (joinpath (box_photos_dir box_id) (strftime now @ CHR ''.'' # lower ext))
              = Inr (up_data file)"
    using upload_stores_data [OF al, of s now t box_id] sn by simp
  have ok: "store_ready s \<and> file_name box_id \<and> calendar_time now \<and>
          (\<forall>c m. node_at s (PHOTOS_DIR @ [box_id]) \<noteq> Some (File c m)) \<and>
          node_at s (PHOTOS_DIR @ [box_id, strftime now @ CHR ''.'' # lower ext]) \<noteq> Some Dir \<longrightarrow>
            (\<exists>s'. upload_photo s now t box_id (Some file) = Done s' (Redirect_view_box box_id))"
    using upload_succeeds [OF assms] by blast
  from sn dg ch rd ok show ?thesis by blast
qed

text \<open>
  \<open>photo.JPG\<close> uploaded to \<open>box-001\<close> on 7 March 2024 at 14:05:09 is stored as
  \<open>20240307_140509.jpg\<close>, and that is the photo list of the box afterwards.
\<close>

theorem upload_stored_name_witness:
  "up_filename photo_upload = ''photo'' @ CHR ''.'' # ''JPG'' \<and> CHR ''.'' \<notin> set ''JPG'' \<and>
   lower ''JPG'' \<in> set ALLOWED_EXTENSIONS \<and>
   store_ready example_store \<and> file_name ''box-001'' \<and> calendar_time upload_time \<and>
   strftime upload_time = ''20240307_140509'' \<and>
   stored_name upload_time (up_filename photo_upload) = ''20240307_140509.jpg'' \<and>
   (\<exists>s'. upload_photo example_store upload_time 9 ''box-001'' (Some photo_upload)
            = Done s' (Redirect_view_box ''box-001'') \<and>
          read_bytes s' (PHOTOS_DIR @ [''box-001'', ''20240307_140509.jpg'']) = Inr ''JFIF'' \<and>
          get_box_photos s' ''box-001'' = Inr [''20240307_140509.jpg''])"
proof -
  have h1: "up_filename photo_upload = ''photo'' @ CHR ''.'' # ''JPG''" by code_simp
  have h2: "CHR ''.'' \<notin> set ''JPG''" by simp
  have h3: "lower ''JPG'' \<in> set ALLOWED_EXTENSIONS" by code_simp
  have h4: "store_ready example_store" by code_simp
  have h5: "file_name ''box-001''" by code_simp
  have h6: "calendar_time upload_time" by code_simp
  have h7: "\<forall>c m. node_at example_store (PHOTOS_DIR @ [''box-001'']) \<noteq> Some (File c m)"
  proof -
    have "node_at example_store (PHOTOS_DIR @ [''box-001'']) = None" by code_simp
    then show ?thesis by simp
  qed
  have e0: "[digit_char (year upload_time div 1000), digit_char (year upload_time div 100 mod 10),
             digit_char (year upload_time div 10 mod 10), digit_char (year upload_time mod 10),
             digit_char (month upload_time div 10), digit_char (month upload_time mod 10),
             digit_char (day upload_time div 10), digit_char (day upload_time mod 10), CHR ''_'',
             digit_char (hour upload_time div 10), digit_char (hour upload_time mod 10),
             digit_char (minute upload_time div 10), digit_char (minute upload_time mod 10),
             digit_char (second upload_time div 10), digit_char (second upload_time mod 10)]
            = ''20240307_140509''" by code_simp
  note T = upload_stored_name [OF h1 h2 h3, of upload_time example_store 9 "''box-001''"]
  from T h6 have st: "strftime upload_time = ''20240307_140509''" by (simp only: e0)
  have e1: "strftime upload_time @ CHR ''.'' # lower ''JPG'' = ''20240307_140509.jpg''"
    by code_simp
  have h8: "node_at example_store (PHOTOS_DIR @ [''box-001'', ''20240307_140509.jpg'']) \<noteq> Some Dir"
    by code_simp
  have e2: "joinpath (box_photos_dir ''box-001'') ''20240307_140509.jpg''
              = PHOTOS_DIR @ [''box-001'', ''20240307_140509.jpg'']" by code_simp
  from T have a: "stored_name upload_time (up_filename photo_upload) = ''20240307_140509.jpg''"
    by (simp only: e1)
  from T h4 h5 h6 h7 h8 obtain s' where
    s': "upload_photo example_store upload_time 9 ''box-001'' (Some photo_upload)
           = Done s' (Redirect_view_box ''box-001'')"
    unfolding e1 by blast
  from T s' have rb: "read_bytes s' (PHOTOS_DIR @ [''box-001'', ''20240307_140509.jpg'']) = Inr ''JFIF''"
    unfolding e1 e2 by (simp add: photo_upload_def)
  have "get_box_photos
          (final_state (upload_photo example_store upload_time 9 ''box-001'' (Some photo_upload)))
          ''box-001'' = Inr [''20240307_140509.jpg'']" by code_simp
  with s' have gp: "get_box_photos s' ''box-001'' = Inr [''20240307_140509.jpg'']"
    by (simp add: final_state_def)
  from a s' rb gp st h1 h2 h3 h4 h5 h6 show ?thesis by blast
qed

text \<open>
  C8 as stated fails: \<open>photo.JPG\<close> is stored as \<open>20240101_100000.jpg\<close>; no file with the
  extension as uploaded exists afterwards.
\<close>

theorem upload_extension_counterexample:
  "get_box_photos
     (final_state (upload_photo example_store example_time 9 ''box-001'' (Some photo_upload)))
     ''box-001'' = Inr [''20240101_100000.jpg''] \<and>
   exists
     (final_state (upload_photo example_store example_time 9 ''box-001'' (Some photo_upload)))
     (PHOTOS_DIR @ [''box-001'', ''20240101_100000.JPG'']) = Inr False"
  by code_simp

subsection \<open>Storage paths built from request data\<close>

text \<open>
  The file name of a photo goes through \<open>secure_filename\<close>, and the record of a box gets
  the suffix \<open>.md\<close>: both name an entry of the directory they are joined to. The box id
  itself is joined to the photos directory as it came.
\<close>

lemma rstrip_last:
  "rstrip_chars cs x \<noteq> [] \<Longrightarrow> last (rstrip_chars cs x) \<notin> set cs"
proof -
  assume ne: "rstrip_chars cs x \<noteq> []"
  let ?ys = "dropWhile (\<lambda>c. c \<in> set cs) (rev x)"
  from ne have ys: "?ys \<noteq> []" by (simp add: rstrip_chars_def)
  then have "hd ?ys \<notin> set cs" using hd_dropWhile [of "\<lambda>c. c \<in> set cs" "rev x"] by blast
  moreover have "last (rev ?ys) = hd ?ys" using ys by (simp add: last_rev)
  ultimately show ?thesis by (simp add: rstrip_chars_def)
qed

lemma set_strip_chars: "set (strip_chars cs s) \<subseteq> set s"
proof
  fix c assume "c \<in> set (strip_chars cs s)"
  then have "c \<in> set (dropWhile (\<lambda>c. c \<in> set cs) (rev (lstrip_chars cs s)))"
    by (simp add: strip_chars_def rstrip_chars_def)
  then have "c \<in> set (lstrip_chars cs s)" by (auto dest: set_dropWhileD)
  then show "c \<in> set s" by (auto simp add: lstrip_chars_def dest: set_dropWhileD)
qed

lemma secure_filename_chars: "c \<in> set (secure_filename nfkd f) \<Longrightarrow> safe_char c"
  using set_strip_chars by (fastforce simp add: secure_filename_def)

lemma safe_char_slash: "\<not> safe_char (CHR ''/'')"
  by code_simp

text \<open>
  What \<open>secure_filename\<close> returns is empty or names an entry: it has no slash and is
  neither \<open>.\<close> nor \<open>..\<close>.
\<close>

lemma secure_filename_plain:
  "secure_filename nfkd f = [] \<or> plain_segment (secure_filename nfkd f)"
proof (cases "secure_filename nfkd f = []")
  case True
  then show ?thesis by simp
next
  case False
  let ?r = "secure_filename nfkd f"
  have "CHR ''/'' \<notin> set ?r" using secure_filename_chars safe_char_slash by blast
  moreover have "last ?r \<notin> set ''._''"
    using False rstrip_last [of "''._''"] by (simp add: secure_filename_def strip_chars_def)
  then have "?r \<noteq> ''.''" "?r \<noteq> ''..''" by auto
  ultimately show ?thesis using False by (simp add: plain_segment_def)
qed

lemma joinpath_Nil: "joinpath p [] = p"
  by (simp add: joinpath_def)

lemma photo_path_under:
  assumes "plain_segment box_id"
  shows "photo_path nfkd box_id f = PHOTOS_DIR @ [box_id] \<or>
         (\<exists>n. plain_segment n \<and> photo_path nfkd box_id f = PHOTOS_DIR @ [box_id, n])"
proof -
  have d: "joinpath PHOTOS_DIR box_id = PHOTOS_DIR @ [box_id]"
    by (rule joinpath_segment [OF assms])
  from secure_filename_plain [of nfkd f] show ?thesis
  proof
    assume "secure_filename nfkd f = []"
    then show ?thesis by (simp add: photo_path_def d joinpath_Nil)
  next
    assume p: "plain_segment (secure_filename nfkd f)"
    then have "photo_path nfkd box_id f = PHOTOS_DIR @ [box_id, secure_filename nfkd f]"
      by (simp add: photo_path_def d joinpath_segment)
    with p show ?thesis by blast
  qed
qed

lemma box_file_plain:
  "CHR ''/'' \<notin> set box_id \<Longrightarrow>
     box_file box_id = BOXES_DIR @ [box_id @ ''.md''] \<and> plain_segment (box_id @ ''.md'')"
proof -
  assume a: "CHR ''/'' \<notin> set box_id"
  have "box_id @ ''.md'' \<noteq> ''.''" "box_id @ ''.md'' \<noteq> ''..''"
    by (cases box_id; simp)+
  with a show ?thesis by (simp add: box_file_route plain_segment_def)
qed

text \<open>
  C1 at the box id \<open>..\<close>, which the route accepts (\<^verbatim>\<open>GET /box/../photos/secret.txt\<close>): the
  photo directory of the box is the data directory, the photo path resolves to a file
  there, outside the photos directory, and \<open>get_photo\<close> serves it.
\<close>

theorem get_photo_traversal:
  "route_segment ''..'' \<and>
   locate traversal_store (box_photos_dir ''..'') = Inr DATA_DIR \<and>
   \<not> under PHOTOS_DIR DATA_DIR \<and>
   photo_path no_nfkd ''..'' ''secret.txt'' = [''data'', ''photos'', ''..'', ''secret.txt''] \<and>
   locate traversal_store (photo_path no_nfkd ''..'' ''secret.txt'') = Inr [''data'', ''secret.txt''] \<and>
   \<not> under PHOTOS_DIR [''data'', ''secret.txt''] \<and>
   get_photo traversal_store no_nfkd ''..'' ''secret.txt'' = Done traversal_store (Send_file ''token'')"
  by code_simp

subsection \<open>Deleting a box\<close>

lemma children_iff: "n \<in> set (children s q) \<longleftrightarrow> (\<exists>v. (q @ [n], v) \<in> set s)"
proof
  assume "n \<in> set (children s q)"
  then obtain k v where kv: "(k, v) \<in> set s" "k \<noteq> []" "butlast k = q" "last k = n"
    by (auto simp add: children_def)
  then have "q @ [n] = k" by (simp add: snoc_eq_iff_butlast)
  with kv(1) show "\<exists>v. (q @ [n], v) \<in> set s" by blast
next
  assume "\<exists>v. (q @ [n], v) \<in> set s"
  then obtain v where "(q @ [n], v) \<in> set s" by blast
  then have "(q @ [n], v) \<in> set (filter (\<lambda>(k, n). k \<noteq> [] \<and> butlast k = q) s)" by simp
  then have "(\<lambda>(k, n). last k) (q @ [n], v)
               \<in> (\<lambda>(k, n). last k) ` set (filter (\<lambda>(k, n). k \<noteq> [] \<and> butlast k = q) s)"
    by (rule imageI)
  then show "n \<in> set (children s q)" by (simp add: children_def)
qed

lemma distinct_children: "distinct (map fst s) \<Longrightarrow> distinct (children s q)"
proof (induction s)
  case Nil
  then show ?case by (simp add: children_def)
next
  case (Cons a s)
  obtain k v where a: "a = (k, v)" by (cases a)
  from Cons have d: "distinct (children s q)" by simp
  show ?case
  proof (cases "k \<noteq> [] \<and> butlast k = q")
    case False
    then have "children (a # s) q = children s q" by (auto simp add: children_def a)
    with d show ?thesis by simp
  next
    case True
    then have c: "children (a # s) q = last k # children s q" by (simp add: children_def a)
    from True have k: "q @ [last k] = k" by (simp add: snoc_eq_iff_butlast)
    have "last k \<notin> set (children s q)"
    proof
      assume "last k \<in> set (children s q)"
      then obtain w where "(q @ [last k], w) \<in> set s" using children_iff by blast
      with k have "k \<in> fst ` set s" by force
      with Cons.prems show False by (simp add: a)
    qed
    with d c show ?thesis by simp
  qed
qed

lemma set_delete: "set (AList.delete k s) = {(k', v). (k', v) \<in> set s \<and> k' \<noteq> k}"
  by (auto simp add: AList.delete_eq)

lemma store_ready_delete:
  assumes "store_ready s" "length k > 2"
  shows "store_ready (AList.delete k s)"
proof -
  from assms(2) have "k \<noteq> []" "k \<noteq> [''data'']" "k \<noteq> [''data'', ''boxes'']"
    "k \<noteq> [''data'', ''photos'']" by auto
  with assms(1) show ?thesis
    by (simp add: store_ready_def node_at_delete PHOTOS_DIR_eq BOXES_DIR_eq DATA_DIR_def)
qed

lemma unlink_file:
  "locate s p = Inr q \<Longrightarrow> node_at s q = Some (File c m) \<Longrightarrow> unlink s p = Inr (AList.delete q s)"
  by (simp add: unlink_def)

lemma unlink_each_files:
  assumes "store_ready s" "file_name x" "node_at s (PHOTOS_DIR @ [x]) = Some Dir"
    and "distinct ns"
    and "\<forall>n\<in>set ns. file_name n \<and> (\<exists>c m. node_at s (PHOTOS_DIR @ [x, n]) = Some (File c m))"
  shows "\<exists>s'. unlink_each s (map (\<lambda>n. PHOTOS_DIR @ [x, n]) ns) = (s', None) \<and>
            store_ready s' \<and>
            set s' = {(k, v). (k, v) \<in> set s \<and> k \<notin> (\<lambda>n. PHOTOS_DIR @ [x, n]) ` set ns} \<and>
            (\<forall>k. node_at s' k
               = (if k \<in> (\<lambda>n. PHOTOS_DIR @ [x, n]) ` set ns then None else node_at s k))"
  using assms
proof (induction ns arbitrary: s)
  case Nil
  then show ?case by simp
next
  case (Cons n ns)
  let ?k = "PHOTOS_DIR @ [x, n]"
  let ?s1 = "AList.delete ?k s"
  from Cons.prems(5) obtain c m where f: "file_name n" "node_at s ?k = Some (File c m)"
    by auto
  have loc: "locate s ?k = Inr ?k"
    by (rule locate_photo_file [OF Cons.prems(1,2) f(1) Cons.prems(3)])
  have u: "unlink s ?k = Inr ?s1" by (rule unlink_file [OF loc f(2)])
  have kne: "?k \<noteq> []" by simp
  have na: "\<And>y. node_at ?s1 y = (if y = ?k then None else node_at s y)"
    by (rule node_at_delete [OF kne])
  have r1: "store_ready ?s1"
    by (rule store_ready_delete [OF Cons.prems(1)]) (simp add: PHOTOS_DIR_eq)
  have d1: "node_at ?s1 (PHOTOS_DIR @ [x]) = Some Dir" using Cons.prems(3) by (simp add: na)
  have "\<forall>n'\<in>set ns. file_name n' \<and>
          (\<exists>c m. node_at ?s1 (PHOTOS_DIR @ [x, n']) = Some (File c m))"
  proof
    fix n' assume n': "n' \<in> set ns"
    with Cons.prems(4) have "n' \<noteq> n" by auto
    then have "PHOTOS_DIR @ [x, n'] \<noteq> ?k" by simp
    with Cons.prems(5) n' show "file_name n' \<and>
          (\<exists>c m. node_at ?s1 (PHOTOS_DIR @ [x, n']) = Some (File c m))"
      by (simp add: na)
  qed
  moreover from Cons.prems(4) have "distinct ns" by simp
  ultimately obtain s' where s': "unlink_each ?s1 (map (\<lambda>n. PHOTOS_DIR @ [x, n]) ns) = (s', None)"
      "store_ready s'"
      "set s' = {(k, v). (k, v) \<in> set ?s1 \<and> k \<notin> (\<lambda>n. PHOTOS_DIR @ [x, n]) ` set ns}"
      "\<forall>k. node_at s' k
               = (if k \<in> (\<lambda>n. PHOTOS_DIR @ [x, n]) ` set ns then None else node_at ?s1 k)"
    using Cons.IH [OF r1 Cons.prems(2) d1] by blast
  have "unlink_each s (map (\<lambda>n. PHOTOS_DIR @ [x, n]) (n # ns)) = (s', None)"
    using u s'(1) by simp
  moreover have "set s' = {(k, v). (k, v) \<in> set s \<and> k \<notin> (\<lambda>n. PHOTOS_DIR @ [x, n]) ` set (n # ns)}"
    unfolding s'(3) set_delete by auto
  moreover have "\<forall>k. node_at s' k
               = (if k \<in> (\<lambda>n. PHOTOS_DIR @ [x, n]) ` set (n # ns) then None else node_at s k)"
    using s'(4) na by auto
  ultimately show ?case using s'(2) by blast
qed

lemma table_ok_node:
  "table_ok s \<Longrightarrow> k \<noteq> [] \<Longrightarrow> (k, v) \<in> set s \<Longrightarrow> node_at s k = Some v"
  by (simp add: table_ok_def node_at_def)

lemma table_ok_plain:
  "table_ok s \<Longrightarrow> (k, v) \<in> set s \<Longrightarrow> c \<in> set k \<Longrightarrow> file_name c"
  by (auto simp add: table_ok_def list_all_iff)

lemma table_ok_delete: "table_ok s \<Longrightarrow> table_ok (AList.delete k s)"
  by (auto simp add: table_ok_def distinct_delete list_all_iff set_delete)

lemma exists_missing_dir:
  assumes "store_ready s" "file_name x" "node_at s (PHOTOS_DIR @ [x]) = None"
  shows "exists s (PHOTOS_DIR @ [x, n]) = Inr False"
proof (cases "has_nul (PHOTOS_DIR @ [x, n])")
  case True
  then show ?thesis by (simp add: exists_def locate_def ignored_error_def)
next
  case False
  from assms(1) have "node_at s [''data''] = Some Dir" "node_at s [''data'', ''photos''] = Some Dir"
    by (simp_all add: store_ready_def DATA_DIR_def PHOTOS_DIR_eq)
  moreover from assms(2) have "x \<noteq> ''..''" "\<not> 255 < name_bytes x"
    by (simp_all add: file_name_def plain_segment_def valid_name_def)
  moreover from assms(3) have "node_at s [''data'', ''photos'', x] = None"
    by (simp add: PHOTOS_DIR_eq)
  ultimately have "walk s [] (PHOTOS_DIR @ [x, n]) = Inl FileNotFoundError"
    using short_names by (simp add: PHOTOS_DIR_eq node_at_root)
  with False show ?thesis by (simp add: exists_def locate_def ignored_error_def)
qed

lemma under_child: "under (PHOTOS_DIR @ [x]) (PHOTOS_DIR @ [x, n])"
  by (simp add: under_def)

lemma under_self: "under p p"
  by (simp add: under_def)

lemma delete_photos_dir_plain:
  assumes R: "store_ready s" and P: "file_name x" and T: "table_ok s"
    and NF: "\<forall>c m. node_at s (PHOTOS_DIR @ [x]) \<noteq> Some (File c m)"
    and FO: "\<forall>n. node_at s (PHOTOS_DIR @ [x, n]) \<noteq> Some Dir"
  shows "\<exists>s'. delete_photos_dir s x = Done s' Redirect_index \<and> store_ready s' \<and>
            node_at s' (PHOTOS_DIR @ [x]) = None \<and> set s' \<subseteq> set s \<and>
            (\<forall>k. \<not> under (PHOTOS_DIR @ [x]) k \<longrightarrow> node_at s' k = node_at s k)"
proof -
  let ?P = "PHOTOS_DIR @ [x]"
  from P have PS: "plain_segment x" by (simp add: file_name_def)
  have dir: "box_photos_dir x = ?P" by (simp add: box_photos_dir_def joinpath_segment [OF PS])
  have loc: "locate s ?P = Inr ?P" by (rule locate_photos_child [OF R P])
  show ?thesis
  proof (cases "node_at s ?P")
    case None
    with loc have "exists s ?P = Inr False" by (simp add: exists_def)
    then have "delete_photos_dir s x = Done s Redirect_index"
      by (simp add: delete_photos_dir_def dir)
    with R None show ?thesis by auto
  next
    case (Some nd)
    with NF have D: "node_at s ?P = Some Dir" by (cases nd) auto
    with loc have ex: "exists s ?P = Inr True" by (simp add: exists_def)
    let ?ns = "children s ?P"
    have g: "glob_star s ?P = Inr (map (\<lambda>n. PHOTOS_DIR @ [x, n]) ?ns)"
      using loc D by (simp add: glob_star_def)
    have dn: "distinct ?ns" using T by (simp add: table_ok_def distinct_children)
    have fl: "\<forall>n\<in>set ?ns. file_name n \<and>
                (\<exists>c m. node_at s (PHOTOS_DIR @ [x, n]) = Some (File c m))"
    proof
      fix n assume "n \<in> set ?ns"
      then obtain v where v: "(?P @ [n], v) \<in> set s" using children_iff by blast
      from table_ok_plain [OF T v, of n] have pn: "file_name n" by simp
      from table_ok_node [OF T _ v] have "node_at s (PHOTOS_DIR @ [x, n]) = Some v" by simp
      with FO have "\<exists>c m. node_at s (PHOTOS_DIR @ [x, n]) = Some (File c m)" by (cases v) auto
      with pn show "file_name n \<and>
                (\<exists>c m. node_at s (PHOTOS_DIR @ [x, n]) = Some (File c m))" by blast
    qed
    from unlink_each_files [OF R P D dn fl] obtain s1 where
      s1: "unlink_each s (map (\<lambda>n. PHOTOS_DIR @ [x, n]) ?ns) = (s1, None)"
          "store_ready s1"
          "set s1 = {(k, v). (k, v) \<in> set s \<and> k \<notin> (\<lambda>n. PHOTOS_DIR @ [x, n]) ` set ?ns}"
          "\<forall>k. node_at s1 k
               = (if k \<in> (\<lambda>n. PHOTOS_DIR @ [x, n]) ` set ?ns then None else node_at s k)"
      by blast
    have c1: "children s1 ?P = []"
    proof (rule ccontr)
      assume "children s1 ?P \<noteq> []"
      then obtain n where "n \<in> set (children s1 ?P)" by (cases "children s1 ?P") auto
      then obtain v where v: "(?P @ [n], v) \<in> set s1" using children_iff by blast
      with s1(3) have "(?P @ [n], v) \<in> set s" "PHOTOS_DIR @ [x, n] \<notin> (\<lambda>n. PHOTOS_DIR @ [x, n]) ` set ?ns"
        by auto
      moreover from this(1) have "n \<in> set ?ns" using children_iff by blast
      ultimately show False by blast
    qed
    have "?P \<notin> (\<lambda>n. PHOTOS_DIR @ [x, n]) ` set ?ns" by auto
    with s1(4) D have D1: "node_at s1 ?P = Some Dir" by simp
    have loc1: "locate s1 ?P = Inr ?P" by (rule locate_photos_child [OF s1(2) P])
    let ?s2 = "AList.delete ?P s1"
    have rm: "rmdir s1 ?P = Inr ?s2" using loc1 D1 c1 by (simp add: rmdir_def)
    have res: "delete_photos_dir s x = Done ?s2 Redirect_index"
      using ex s1(1) rm by (simp add: delete_photos_dir_def dir g)
    have r2: "store_ready ?s2" by (rule store_ready_delete [OF s1(2)]) (simp add: PHOTOS_DIR_eq)
    have na2: "\<And>y. node_at ?s2 y = (if y = ?P then None else node_at s1 y)"
      by (rule node_at_delete) simp
    have sub: "set ?s2 \<subseteq> set s" using s1(3) by (auto simp add: set_delete)
    have oth: "\<forall>k. \<not> under ?P k \<longrightarrow> node_at ?s2 k = node_at s k"
    proof (intro allI impI)
      fix k assume nu: "\<not> under ?P k"
      then have "k \<noteq> ?P" using under_self by blast
      moreover from nu have "k \<notin> (\<lambda>n. PHOTOS_DIR @ [x, n]) ` set ?ns" using under_child by blast
      ultimately show "node_at ?s2 k = node_at s k" using s1(4) by (simp add: na2)
    qed
    from res r2 na2 sub oth show ?thesis by auto
  qed
qed

lemma matches_md_split: "matches_md n \<Longrightarrow> \<exists>x. n = x @ ''.md''"
proof -
  assume "matches_md n"
  then have "drop (length n - 3) n = ''.md''" by (simp add: matches_md_def)
  then have "n = take (length n - 3) n @ ''.md''" by (metis append_take_drop_id)
  then show ?thesis by blast
qed

lemma name_suffix_md: "x \<noteq> [] \<Longrightarrow> name_suffix (x @ ''.md'') = ''.md''"
proof -
  assume "x \<noteq> []"
  have "rev (takeWhile (\<lambda>c. c \<noteq> CHR ''.'') (rev (x @ CHR ''.'' # ''md''))) = ''md''"
    by (rule after_last_dot) simp
  then have e: "rev (takeWhile (\<lambda>c. c \<noteq> CHR ''.'') (rev (x @ ''.md''))) = ''md''" by simp
  show ?thesis unfolding name_suffix_def e using \<open>x \<noteq> []\<close> by (simp add: Let_def)
qed

lemma name_stem_md: "x \<noteq> [] \<Longrightarrow> name_stem (x @ ''.md'') = x"
  by (simp add: name_stem_def name_suffix_md)

lemma existing_ids_total: "\<exists>ids. existing_ids s = Inr ids"
proof -
  have "\<forall>c\<in>set BOXES_DIR. \<not> 255 < name_bytes c" using short_names by (simp add: BOXES_DIR_eq)
  from glob_star_total [OF this] obtain fs where "glob_star s BOXES_DIR = Inr fs" by blast
  then show ?thesis by (simp add: existing_ids_def glob_md_def)
qed

lemma existing_ids_D:
  assumes "existing_ids s = Inr ids" "i \<in> set ids"
  shows "\<exists>n v. (BOXES_DIR @ [n], v) \<in> set s \<and> matches_md n \<and> name_stem n = i"
proof -
  from assms(1) obtain fs where g: "glob_star s BOXES_DIR = Inr fs"
    and ids: "ids = map (\<lambda>f. name_stem (last f)) (filter (\<lambda>f. matches_md (last f)) fs)"
    by (auto simp add: existing_ids_def glob_md_def split: sum.splits)
  from assms(2) ids obtain f where f: "f \<in> set fs" "matches_md (last f)" "name_stem (last f) = i"
    by auto
  have "\<exists>q. locate s BOXES_DIR = Inr q \<and> f \<in> (\<lambda>n. BOXES_DIR @ [n]) ` set (children s q)"
  proof (cases "locate s BOXES_DIR")
    case (Inl e)
    with g f(1) show ?thesis by (simp add: glob_star_def split: if_splits)
  next
    case (Inr q)
    with g f(1) show ?thesis by (cases "node_at s q = Some Dir") (auto simp add: glob_star_def)
  qed
  then obtain q where q: "locate s BOXES_DIR = Inr q" "f \<in> (\<lambda>n. BOXES_DIR @ [n]) ` set (children s q)"
    by blast
  from locate_Inr [OF q(1)] have "walk s [] BOXES_DIR = Inr q" by simp
  then have "q = BOXES_DIR"
    by (auto simp add: BOXES_DIR_eq split: option.splits node.splits if_splits)
  with q(2) obtain n where n: "f = BOXES_DIR @ [n]" "n \<in> set (children s BOXES_DIR)" by auto
  then obtain v where "(BOXES_DIR @ [n], v) \<in> set s" using children_iff by blast
  with f(2,3) n(1) show ?thesis by auto
qed

lemma existing_ids_record:
  assumes "existing_ids s = Inr ids" "i \<in> set ids" "i \<noteq> ''.md''"
  shows "\<exists>v. (BOXES_DIR @ [i @ ''.md''], v) \<in> set s"
proof -
  from existing_ids_D [OF assms(1,2)] obtain n v where
    n: "(BOXES_DIR @ [n], v) \<in> set s" "matches_md n" "name_stem n = i" by blast
  from matches_md_split [OF n(2)] obtain x where x: "n = x @ ''.md''" by blast
  have "x \<noteq> []"
  proof
    assume "x = []"
    with x n(3) have "i = name_stem ''.md''" by simp
    moreover have "name_stem ''.md'' = ''.md''" by code_simp
    ultimately show False using assms(3) by simp
  qed
  with x n(3) have "x = i" by (simp add: name_stem_md)
  with x n(1) show ?thesis by blast
qed

text \<open>
  For a box id that names an entry of the photos directory, in a table as a file system
  keeps it, with the record not a directory and nothing but regular files in the photo
  directory, \<open>delete_box\<close> completes: record, photos and photo directory are gone, every
  photo of the box is answered with not found, the box is no longer listed, and nothing
  else has changed. It completes as well when record or directory were absent.
\<close>

lemma delete_box_plain:
  assumes R: "store_ready s" and P: "file_name box_id" and V: "valid_name (box_id @ ''.md'')"
    and T: "table_ok s"
    and REC: "node_at s (box_file box_id) \<noteq> Some Dir"
    and NF: "\<forall>c m. node_at s (PHOTOS_DIR @ [box_id]) \<noteq> Some (File c m)"
    and FO: "\<forall>n. node_at s (PHOTOS_DIR @ [box_id, n]) \<noteq> Some Dir"
  shows "\<exists>s'. delete_box s box_id = Done s' Redirect_index \<and>
            exists s' (box_file box_id) = Inr False \<and>
            exists s' (box_photos_dir box_id) = Inr False \<and>
            (\<forall>nfkd f. get_photo s' nfkd box_id f = Done s' Not_found) \<and>
            (box_id \<noteq> ''.md'' \<longrightarrow> (\<exists>ids. existing_ids s' = Inr ids \<and> box_id \<notin> set ids)) \<and>
            (\<forall>k. k \<noteq> box_file box_id \<and> \<not> under (PHOTOS_DIR @ [box_id]) k \<longrightarrow>
               node_at s' k = node_at s k)"
proof -
  let ?P = "PHOTOS_DIR @ [box_id]"
  from P have PS: "plain_segment box_id" by (simp add: file_name_def)
  from PS have ns: "CHR ''/'' \<notin> set box_id" by (simp add: plain_segment_def)
  have bf: "box_file box_id = BOXES_DIR @ [box_id @ ''.md'']" by (rule box_file_route [OF ns])
  have bfl: "length (box_file box_id) = 3" by (simp add: bf BOXES_DIR_eq)
  have bfu: "\<not> under ?P (box_file box_id)" by (simp add: bf under_def BOXES_DIR_eq PHOTOS_DIR_eq)
  have dir: "box_photos_dir box_id = ?P" by (simp add: box_photos_dir_def joinpath_segment [OF PS])
  have loc: "locate s (box_file box_id) = Inr (box_file box_id)"
    by (rule locate_box_file [OF R ns V])
  have ex: "exists s (box_file box_id) = Inr (node_at s (box_file box_id) \<noteq> None)"
    using loc by (simp add: exists_def)
  define s0 where
    "s0 = (if node_at s (box_file box_id) \<noteq> None then AList.delete (box_file box_id) s else s)"
  have step: "delete_box s box_id = delete_photos_dir s0 box_id"
  proof (cases "node_at s (box_file box_id)")
    case None
    with ex show ?thesis by (simp add: delete_box_def s0_def)
  next
    case (Some nd)
    with REC obtain c m where "nd = File c m" by (cases nd) auto
    with Some have "node_at s (box_file box_id) = Some (File c m)" by simp
    from unlink_file [OF loc this] ex Some show ?thesis by (simp add: delete_box_def s0_def)
  qed
  have na0: "\<And>k. node_at s0 k = (if k = box_file box_id then None else node_at s k)"
  proof -
    fix k
    show "node_at s0 k = (if k = box_file box_id then None else node_at s k)"
    proof (cases "node_at s (box_file box_id)")
      case (Some nd)
      have "box_file box_id \<noteq> []" using bfl by auto
      from node_at_delete [OF this] Some show ?thesis by (simp add: s0_def)
    next
      case None
      then show ?thesis by (simp add: s0_def)
    qed
  qed
  have R0: "store_ready s0" using R store_ready_delete [OF R, of "box_file box_id"] bfl
    by (simp add: s0_def)
  have T0: "table_ok s0" using T table_ok_delete [OF T] by (simp add: s0_def)
  have sub0: "set s0 \<subseteq> set s" by (auto simp add: s0_def set_delete)
  have NF0: "\<forall>c m. node_at s0 ?P \<noteq> Some (File c m)" using NF by (simp add: na0)
  have FO0: "\<forall>n. node_at s0 (PHOTOS_DIR @ [box_id, n]) \<noteq> Some Dir" using FO by (simp add: na0)
  from delete_photos_dir_plain [OF R0 P T0 NF0 FO0] obtain s' where
    s': "delete_photos_dir s0 box_id = Done s' Redirect_index" "store_ready s'"
        "node_at s' ?P = None" "set s' \<subseteq> set s0"
        "\<forall>k. \<not> under ?P k \<longrightarrow> node_at s' k = node_at s0 k" by blast
  have nbf: "node_at s' (box_file box_id) = None" using s'(5) bfu by (simp add: na0)
  have e1: "exists s' (box_file box_id) = Inr False"
    using locate_box_file [OF s'(2) ns V] nbf by (simp add: exists_def)
  have e2: "exists s' (box_photos_dir box_id) = Inr False"
    using locate_photos_child [OF s'(2) P] s'(3) by (simp add: exists_def dir)
  have gp: "\<forall>nfkd f. get_photo s' nfkd box_id f = Done s' Not_found"
  proof (intro allI)
    fix nfkd f
    from photo_path_under [OF PS, of nfkd f]
    have "exists s' (photo_path nfkd box_id f) = Inr False"
    proof
      assume "photo_path nfkd box_id f = ?P"
      with e2 show ?thesis by (simp add: dir)
    next
      assume "\<exists>n. plain_segment n \<and> photo_path nfkd box_id f = PHOTOS_DIR @ [box_id, n]"
      then obtain n where "photo_path nfkd box_id f = PHOTOS_DIR @ [box_id, n]" by blast
      with exists_missing_dir [OF s'(2) P s'(3), of n] show ?thesis by simp
    qed
    then show "get_photo s' nfkd box_id f = Done s' Not_found" by (simp add: get_photo_def)
  qed
  from existing_ids_total [of s'] obtain ids where i: "existing_ids s' = Inr ids" by blast
  have "box_id \<noteq> ''.md'' \<longrightarrow> box_id \<notin> set ids"
  proof (intro impI notI)
    assume "box_id \<noteq> ''.md''" "box_id \<in> set ids"
    from existing_ids_record [OF i this(2,1)] obtain v where "(box_file box_id, v) \<in> set s'"
      by (auto simp add: bf)
    then have "\<exists>v. map_of s' (box_file box_id) = Some v" by (rule weak_map_of_SomeI)
    then have "node_at s' (box_file box_id) \<noteq> None" using bfl by (auto simp add: node_at_def)
    with nbf show False by simp
  qed
  with i have ids: "box_id \<noteq> ''.md'' \<longrightarrow> (\<exists>ids. existing_ids s' = Inr ids \<and> box_id \<notin> set ids)"
    by simp
  have oth: "\<forall>k. k \<noteq> box_file box_id \<and> \<not> under ?P k \<longrightarrow> node_at s' k = node_at s k"
    using s'(5) by (simp add: na0)
  have d: "delete_box s box_id = Done s' Redirect_index" using step s'(1) by simp
  show ?thesis
  proof (intro exI conjI)
    show "delete_box s box_id = Done s' Redirect_index" by (rule d)
    show "exists s' (box_file box_id) = Inr False" by (rule e1)
    show "exists s' (box_photos_dir box_id) = Inr False" by (rule e2)
    show "\<forall>nfkd f. get_photo s' nfkd box_id f = Done s' Not_found" by (rule gp)
    show "box_id \<noteq> ''.md'' \<longrightarrow> (\<exists>ids. existing_ids s' = Inr ids \<and> box_id \<notin> set ids)"
      by (rule ids)
    show "\<forall>k. k \<noteq> box_file box_id \<and> \<not> under (PHOTOS_DIR @ [box_id]) k \<longrightarrow>
               node_at s' k = node_at s k" by (rule oth)
  qed
qed

text \<open>The box \<open>box-001\<close> of the example store, with its photo, is such a box.\<close>

lemma delete_box_example:
  "\<exists>s'. delete_box traversal_store ''box-001'' = Done s' Redirect_index \<and>
         exists s' (box_file ''box-001'') = Inr False \<and>
         exists s' (box_photos_dir ''box-001'') = Inr False \<and>
         get_photo s' no_nfkd ''box-001'' ''20240101_100000.jpg'' = Done s' Not_found \<and>
         (\<exists>ids. existing_ids s' = Inr ids \<and> ''box-001'' \<notin> set ids)"
proof -
  have R: "store_ready traversal_store" by code_simp
  have P: "file_name ''box-001''" by code_simp
  have V: "valid_name (''box-001'' @ ''.md'')" by code_simp
  have T: "table_ok traversal_store" by code_simp
  have REC: "node_at traversal_store (box_file ''box-001'') \<noteq> Some Dir" by code_simp
  have NF: "\<forall>c m. node_at traversal_store (PHOTOS_DIR @ [''box-001'']) \<noteq> Some (File c m)"
  proof -
    have "node_at traversal_store (PHOTOS_DIR @ [''box-001'']) = Some Dir" by code_simp
    then show ?thesis by simp
  qed
  have FO: "\<forall>n. node_at traversal_store (PHOTOS_DIR @ [''box-001'', n]) \<noteq> Some Dir"
    by (simp add: node_at_def traversal_store_def PHOTOS_DIR_eq)
  from delete_box_plain [OF R P V T REC NF FO] show ?thesis by auto
qed

text \<open>
  C6 at the box id \<open>.\<close>, which the route accepts and which is a box of the store: its
  photo directory is the photos directory itself. \<open>delete_box\<close> removes the record, then
  tries to unlink the photo directory of another box and raises; the directory it was to
  remove is still there.
\<close>

theorem delete_dot_box_raises:
  "route_segment ''.'' \<and>
   get_box_content dot_box_store ''.'' = Inr (Some ''# Dot'') \<and>
   box_photos_dir ''.'' = PHOTOS_DIR \<and>
   delete_box dot_box_store ''.''
     = Raised (AList.delete [''data'', ''boxes'', ''..md''] dot_box_store) IsADirectoryError \<and>
   exists (final_state (delete_box dot_box_store ''.'')) (box_photos_dir ''.'') = Inr True"
  by code_simp

subsection \<open>Allocating an id\<close>

lemma box_name_chars:
  assumes "c \<in> set (box_name n @ ''.md'')"
  shows "c \<in> set ''box-0.md'' \<or> (48 \<le> (of_char c :: nat) \<and> (of_char c :: nat) \<le> 57)"
proof -
  from assms have "c \<in> set ''box-0.md'' \<or> c \<in> set (dec n)"
    by (auto simp add: box_name_def zfill_def)
  then show ?thesis using dec_digits [of c n] by blast
qed

lemma box_name_noslash: "CHR ''/'' \<notin> set (box_name n)"
proof
  assume "CHR ''/'' \<in> set (box_name n)"
  then have "CHR ''/'' \<in> set (box_name n @ ''.md'')" by simp
  from box_name_chars [OF this] show False by simp
qed

lemma box_name_ascii: "\<forall>c\<in>set (box_name n @ ''.md''). is_ascii c"
proof
  fix c assume "c \<in> set (box_name n @ ''.md'')"
  from box_name_chars [OF this] show "is_ascii c" by (auto simp add: is_ascii_def)
qed

lemma box_file_name: "box_file (box_name n) = BOXES_DIR @ [box_name n @ ''.md'']"
  by (rule box_file_route [OF box_name_noslash])

text \<open>
  Box numbers of up to 248 digits give record names of at most 255 bytes, so the limit on
  the length of a name is met only beyond box number \<open>10\<^sup>2\<^sup>4\<^sup>8\<close>.
\<close>

lemma dec_length: "n < 10 ^ m \<Longrightarrow> 0 < m \<Longrightarrow> length (dec n) \<le> m"
proof (induction n arbitrary: m rule: dec.induct)
  case (1 n)
  show ?case
  proof (cases "n < 10")
    case True
    with "1.prems" show ?thesis by (simp add: dec.simps [of n] Suc_le_eq)
  next
    case False
    from "1.prems" obtain m' where m': "m = Suc m'" by (cases m) auto
    have "0 < m'"
    proof (rule ccontr)
      assume "\<not> 0 < m'"
      with m' "1.prems"(1) have "n < 10" by simp
      with False show False by simp
    qed
    moreover from "1.prems"(1) m' have "n < 10 ^ m' * 10" by simp
    then have "n div 10 < 10 ^ m'" by (rule less_mult_imp_div_less)
    ultimately have "length (dec (n div 10)) \<le> m'" using "1.IH" [OF False] by blast
    with False m' show ?thesis by (simp add: dec.simps [of n])
  qed
qed

lemma box_name_valid:
  assumes "n < 10 ^ 248"
  shows "valid_name (box_name n @ ''.md'')"
proof -
  from dec_length [OF assms] have "length (dec n) \<le> 248" by simp
  then have "length (box_name n @ ''.md'') \<le> 255" by (simp add: box_name_def zfill_def)
  then have "name_bytes (box_name n @ ''.md'') \<le> 255"
    by (simp only: name_bytes_ascii [OF box_name_ascii])
  moreover have "NUL \<notin> set (box_name n @ ''.md'')"
  proof
    assume "NUL \<in> set (box_name n @ ''.md'')"
    from box_name_chars [OF this] show False by simp
  qed
  ultimately show ?thesis by (simp only: valid_name_def) simp
qed

text \<open>The boxes directory, once it holds an entry that is listed, is there.\<close>

lemma walk_boxes: "walk s [] BOXES_DIR = Inr q \<Longrightarrow> q = BOXES_DIR \<and> node_at s [''data''] = Some Dir"
  by (auto simp add: BOXES_DIR_eq split: option.splits node.splits if_splits)

lemma listed_dirs:
  assumes "existing_ids s = Inr ids" "i \<in> set ids"
  shows "node_at s BOXES_DIR = Some Dir \<and> node_at s [''data''] = Some Dir"
proof -
  from assms(1) obtain fs where g: "glob_star s BOXES_DIR = Inr fs"
    and ids: "ids = map (\<lambda>f. name_stem (last f)) (filter (\<lambda>f. matches_md (last f)) fs)"
    by (auto simp add: existing_ids_def glob_md_def split: sum.splits)
  from assms(2) ids have ne: "fs \<noteq> []" by auto
  show ?thesis
  proof (cases "locate s BOXES_DIR")
    case (Inl e)
    with g ne show ?thesis by (simp add: glob_star_def split: if_splits)
  next
    case (Inr q)
    with g ne have d: "node_at s q = Some Dir"
      by (cases "node_at s q = Some Dir") (auto simp add: glob_star_def)
    from locate_Inr [OF Inr] have "walk s [] BOXES_DIR = Inr q" by simp
    from walk_boxes [OF this] d show ?thesis by simp
  qed
qed

lemma locate_boxes_child:
  assumes "node_at s [''data''] = Some Dir" "node_at s BOXES_DIR = Some Dir"
    and "valid_name n" "n \<noteq> ''..''"
  shows "locate s (BOXES_DIR @ [n]) = Inr (BOXES_DIR @ [n])"
proof -
  from assms(2) have "node_at s [''data'', ''boxes''] = Some Dir" by (simp add: BOXES_DIR_eq)
  moreover have "\<not> has_nul [''data'', ''boxes'', n]"
    using valid_name_nul [OF assms(3)] by (simp add: has_nul_Cons has_nul_Nil)
  ultimately show ?thesis
    using assms(1,4) valid_name_bytes [OF assms(3)] short_names
    by (simp add: BOXES_DIR_eq locate_def node_at_root)
qed

text \<open>A record that \<open>exists\<close> finds is listed among the existing ids.\<close>

lemma record_listed:
  assumes ex: "exists s (BOXES_DIR @ [x @ ''.md'']) = Inr True" and x: "x \<noteq> []"
    and ids: "existing_ids s = Inr ids"
  shows "x \<in> set ids"
proof -
  let ?n = "x @ ''.md''"
  from ex obtain q where q: "locate s (BOXES_DIR @ [?n]) = Inr q" "node_at s q \<noteq> None"
    by (cases "locate s (BOXES_DIR @ [?n])") (auto simp add: exists_def split: if_splits)
  from locate_Inr [OF q(1)] have wk: "walk s [] (BOXES_DIR @ [?n]) = Inr q" by simp
  have ne: "?n \<noteq> ''..''" using x by (cases x) auto
  from wk ne have w: "q = BOXES_DIR @ [?n]" "node_at s BOXES_DIR = Some Dir"
    "node_at s [''data''] = Some Dir"
    by (auto simp add: BOXES_DIR_eq split: option.splits node.splits if_splits)
  from q(2) w(1) obtain v where "map_of s (BOXES_DIR @ [?n]) = Some v"
    by (auto simp add: node_at_def)
  then have "(BOXES_DIR @ [?n], v) \<in> set s" by (rule map_of_SomeD)
  then have c: "?n \<in> set (children s BOXES_DIR)" using children_iff by blast
  have "\<not> has_nul BOXES_DIR" by (simp add: BOXES_DIR_eq has_nul_Cons has_nul_Nil)
  then have lb: "locate s BOXES_DIR = Inr BOXES_DIR"
    using w(2,3) short_names by (simp add: locate_def BOXES_DIR_eq node_at_root)
  have g: "glob_star s BOXES_DIR = Inr (map (\<lambda>n. BOXES_DIR @ [n]) (children s BOXES_DIR))"
    using lb w(2) by (simp add: glob_star_def)
  have m: "matches_md ?n" by (simp add: matches_md_def)
  from ids g have i: "ids = map (\<lambda>f. name_stem (last f))
       (filter (\<lambda>f. matches_md (last f)) (map (\<lambda>n. BOXES_DIR @ [n]) (children s BOXES_DIR)))"
    by (simp add: existing_ids_def glob_md_def)
  have "BOXES_DIR @ [?n] \<in> (\<lambda>n. BOXES_DIR @ [n]) ` set (children s BOXES_DIR)"
    using c by (rule imageI)
  with m have "BOXES_DIR @ [?n]
      \<in> set (filter (\<lambda>f. matches_md (last f)) (map (\<lambda>n. BOXES_DIR @ [n]) (children s BOXES_DIR)))"
    by simp
  then have "(\<lambda>f. name_stem (last f)) (BOXES_DIR @ [?n]) \<in> (\<lambda>f. name_stem (last f)) `
      set (filter (\<lambda>f. matches_md (last f)) (map (\<lambda>n. BOXES_DIR @ [n]) (children s BOXES_DIR)))"
    by (rule imageI)
  then have "name_stem ?n \<in> set ids" by (simp only: i set_map last_snoc)
  with x show ?thesis by (simp add: name_stem_md)
qed

text \<open>A listed id has its record in the store, and \<open>exists\<close> finds it when its name is valid.\<close>

lemma listed_record:
  assumes ids: "existing_ids s = Inr ids" and j: "box_name j \<in> set ids"
  shows "node_at s (box_file (box_name j)) \<noteq> None"
    and "valid_name (box_name j @ ''.md'') \<Longrightarrow> exists s (box_file (box_name j)) = Inr True"
proof -
  have "box_name j \<noteq> ''.md''" by (simp add: box_name_def)
  from existing_ids_record [OF ids j this] obtain v where
    "(BOXES_DIR @ [box_name j @ ''.md''], v) \<in> set s" by blast
  then have "\<exists>v. map_of s (BOXES_DIR @ [box_name j @ ''.md'']) = Some v"
    by (rule weak_map_of_SomeI)
  then show na: "node_at s (box_file (box_name j)) \<noteq> None"
    by (auto simp add: node_at_def box_file_name)
  assume v: "valid_name (box_name j @ ''.md'')"
  from listed_dirs [OF ids j] have d: "node_at s [''data''] = Some Dir"
    "node_at s BOXES_DIR = Some Dir" by simp_all
  have "box_name j @ ''.md'' \<noteq> ''..''" by (simp add: box_name_def)
  from locate_boxes_child [OF d v this] na
  show "exists s (box_file (box_name j)) = Inr True" by (simp add: exists_def box_file_name)
qed

text \<open>In a table as a file system keeps it, the record of a listed id has a valid name.\<close>

lemma listed_valid:
  assumes T: "table_ok s" and ids: "existing_ids s = Inr ids" and j: "box_name j \<in> set ids"
  shows "valid_name (box_name j @ ''.md'')"
proof -
  have "box_name j \<noteq> ''.md''" by (simp add: box_name_def)
  from existing_ids_record [OF ids j this] obtain v where
    v: "(BOXES_DIR @ [box_name j @ ''.md''], v) \<in> set s" by blast
  from table_ok_plain [OF T v, of "box_name j @ ''.md''"]
  show ?thesis by (simp add: file_name_def)
qed

text \<open>
  C3. In every store, \<open>generate_box_id\<close> returns \<open>box-k\<close> for the least \<open>k \<ge> 1\<close> that is
  unused: \<open>box-k\<close> is not among the existing ids and \<open>exists\<close> does not find a record of
  it (reading it gives no content, when its name is one the file system accepts), while
  every smaller number \<open>j\<close> is among the existing ids, has its record in the store, and
  \<open>exists\<close> finds that record when its name is one the file system accepts; in a table
  as a file system keeps it, that is every smaller number.
  Allocating an id (\<open>new_box\<close>) leaves the store as it was, so a second call answers the
  same.
\<close>

theorem generate_box_id_smallest_unused:
  "\<exists>k ids. 1 \<le> k \<and> generate_box_id s = Inr (box_name k) \<and> existing_ids s = Inr ids \<and>
     box_name k \<notin> set ids \<and>
     exists s (box_file (box_name k)) \<noteq> Inr True \<and>
     (valid_name (box_name k @ ''.md'') \<longrightarrow> get_box_content s (box_name k) = Inr None) \<and>
     (\<forall>j. 1 \<le> j \<and> j < k \<longrightarrow> box_name j \<in> set ids) \<and>
     (\<forall>j. 1 \<le> j \<and> j < k \<longrightarrow> node_at s (box_file (box_name j)) \<noteq> None) \<and>
     (\<forall>j. 1 \<le> j \<and> j < k \<and> valid_name (box_name j @ ''.md'') \<longrightarrow>
        exists s (box_file (box_name j)) = Inr True) \<and>
     (table_ok s \<longrightarrow>
        (\<forall>j. 1 \<le> j \<and> j < k \<longrightarrow> exists s (box_file (box_name j)) = Inr True)) \<and>
     new_box s = Done s (Redirect_edit_box (box_name k)) \<and>
     new_box (final_state (new_box s)) = new_box s"
proof -
  from existing_ids_total [of s] obtain ids where ids: "existing_ids s = Inr ids" by blast
  from generate_from_spec [of 1 ids] obtain k where
    k: "1 \<le> k" "generate_box_id_from ids 1 = box_name k" "box_name k \<notin> set ids"
       "\<forall>j. 1 \<le> j \<and> j < k \<longrightarrow> box_name j \<in> set ids"
    by blast
  have g: "generate_box_id s = Inr (box_name k)" using ids k(2) by (simp add: generate_box_id_def)
  have nb: "new_box s = Done s (Redirect_edit_box (box_name k))" using g by (simp add: new_box_def)
  have ne: "exists s (box_file (box_name k)) \<noteq> Inr True"
  proof
    assume "exists s (box_file (box_name k)) = Inr True"
    then have "exists s (BOXES_DIR @ [box_name k @ ''.md'']) = Inr True"
      by (simp only: box_file_name)
    moreover have "box_name k \<noteq> []" by (simp add: box_name_def)
    ultimately have "box_name k \<in> set ids" using ids by (rule record_listed)
    with k(3) show False by simp
  qed
  have nc: "valid_name (box_name k @ ''.md'') \<longrightarrow> get_box_content s (box_name k) = Inr None"
  proof
    assume v: "valid_name (box_name k @ ''.md'')"
    have "\<forall>c\<in>set (box_file (box_name k)). \<not> 255 < name_bytes c"
      using valid_name_bytes [OF v] short_names by (simp add: box_file_name BOXES_DIR_eq)
    from exists_total [OF this, of s] obtain b where b: "exists s (box_file (box_name k)) = Inr b"
      by blast
    with ne have "\<not> b" by auto
    with b show "get_box_content s (box_name k) = Inr None" by (simp add: get_box_content_def)
  qed
  have st: "\<forall>j. 1 \<le> j \<and> j < k \<longrightarrow> node_at s (box_file (box_name j)) \<noteq> None"
    using k(4) listed_record(1) [OF ids] by blast
  have fd: "\<forall>j. 1 \<le> j \<and> j < k \<and> valid_name (box_name j @ ''.md'') \<longrightarrow>
        exists s (box_file (box_name j)) = Inr True"
    using k(4) listed_record(2) [OF ids] by blast
  have tb: "table_ok s \<longrightarrow>
        (\<forall>j. 1 \<le> j \<and> j < k \<longrightarrow> exists s (box_file (box_name j)) = Inr True)"
  proof (intro impI allI)
    fix j assume T: "table_ok s" and j: "1 \<le> j \<and> j < k"
    with k(4) have m: "box_name j \<in> set ids" by blast
    from listed_record(2) [OF ids m listed_valid [OF T ids m]]
    show "exists s (box_file (box_name j)) = Inr True" .
  qed
  have again: "new_box (final_state (new_box s)) = new_box s" by (simp add: nb final_state_def)
  show ?thesis
  proof (intro exI conjI)
    show "1 \<le> k" by (rule k(1))
    show "generate_box_id s = Inr (box_name k)" by (rule g)
    show "existing_ids s = Inr ids" by (rule ids)
    show "box_name k \<notin> set ids" by (rule k(3))
    show "exists s (box_file (box_name k)) \<noteq> Inr True" by (rule ne)
    show "valid_name (box_name k @ ''.md'') \<longrightarrow> get_box_content s (box_name k) = Inr None"
      by (rule nc)
    show "\<forall>j. 1 \<le> j \<and> j < k \<longrightarrow> box_name j \<in> set ids" by (rule k(4))
    show "\<forall>j. 1 \<le> j \<and> j < k \<longrightarrow> node_at s (box_file (box_name j)) \<noteq> None" by (rule st)
    show "\<forall>j. 1 \<le> j \<and> j < k \<and> valid_name (box_name j @ ''.md'') \<longrightarrow>
        exists s (box_file (box_name j)) = Inr True" by (rule fd)
    show "table_ok s \<longrightarrow>
        (\<forall>j. 1 \<le> j \<and> j < k \<longrightarrow> exists s (box_file (box_name j)) = Inr True)" by (rule tb)
    show "new_box s = Done s (Redirect_edit_box (box_name k))" by (rule nb)
    show "new_box (final_state (new_box s)) = new_box s" by (rule again)
  qed
qed

text \<open>
  In the example store, with the boxes \<open>box-001\<close> and \<open>box-003\<close>, the id allocated is
  \<open>box-002\<close>: it has no record, and the one smaller number has.
\<close>

theorem generate_box_id_witness:
  "existing_ids example_store = Inr [''box-001'', ''box-003''] \<and>
   generate_box_id example_store = Inr ''box-002'' \<and>
   box_name 1 = ''box-001'' \<and> box_name 2 = ''box-002'' \<and>
   (1::nat) \<le> 1 \<and> (1::nat) < 2 \<and> table_ok example_store \<and>
   valid_name (box_name 1 @ ''.md'') \<and>
   valid_name (box_name 2 @ ''.md'') \<and>
   exists example_store (box_file (box_name 1)) = Inr True \<and>
   exists example_store (box_file (box_name 2)) = Inr False \<and>
   get_box_content example_store (box_name 2) = Inr None \<and>
   new_box example_store = Done example_store (Redirect_edit_box ''box-002'')"
proof -
  have e: "existing_ids example_store = Inr [''box-001'', ''box-003'']" by code_simp
  have g: "generate_box_id example_store = Inr ''box-002''" by code_simp
  have n1: "box_name 1 = ''box-001''" by code_simp
  have n2: "box_name 2 = ''box-002''" by code_simp
  have v1: "valid_name (box_name 1 @ ''.md'')" by code_simp
  have v2: "valid_name (box_name 2 @ ''.md'')" by code_simp
  have tk: "table_ok example_store" by code_simp
  have x2: "exists example_store (box_file (box_name 2)) = Inr False" by code_simp
  from generate_box_id_smallest_unused [of example_store] obtain k where
    k: "generate_box_id example_store = Inr (box_name k)"
       "valid_name (box_name k @ ''.md'') \<longrightarrow> get_box_content example_store (box_name k) = Inr None"
       "\<forall>j. 1 \<le> j \<and> j < k \<and> valid_name (box_name j @ ''.md'') \<longrightarrow>
          exists example_store (box_file (box_name j)) = Inr True"
       "new_box example_store = Done example_store (Redirect_edit_box (box_name k))"
       "table_ok example_store \<longrightarrow>
          (\<forall>j. 1 \<le> j \<and> j < k \<longrightarrow> exists example_store (box_file (box_name j)) = Inr True)"
    by blast
  from k(1) g n2 have "box_name k = box_name 2" by simp
  then have k2: "k = 2" by (rule box_name_inj)
  from k(5) k2 tk have x1: "exists example_store (box_file (box_name 1)) = Inr True" by simp
  from k(3) k2 v1 have "exists example_store (box_file (box_name 1)) = Inr True" by simp
  from k(2) k2 v2 have c: "get_box_content example_store (box_name 2) = Inr None" by simp
  from k(4) k2 n2 have nb: "new_box example_store = Done example_store (Redirect_edit_box ''box-002'')"
    by simp
  from e g n1 n2 tk v1 v2 x1 x2 c nb show ?thesis by simp
qed

end
